theory Spec2Isabelle
  imports Main "HOL-Library.AList" "HOL-Library.Multiset"
begin

section \<open>Data model of the raffle bot (bot.py)\<close>

text \<open>
  The bot keeps its state twice: in five module-level Python containers (the cache) and in
  eight PostgreSQL tables created by \<open>db_init\<close> (the store). User identifiers are Python
  ints (BIGINT columns); timestamps are modelled as integers on one UTC clock. The
  INTEGER counters of the \<open>stats\<close> table are modelled as unbounded integers, as the
  Python counters of the cache are.
\<close>

type_synonym uid = int
type_synonym tstamp = int

text \<open>A value of \<open>user_stats\<close> and a row of the \<open>stats\<close> table.\<close>

record stat =
  registrations :: int
  wins :: int

text \<open>
  The module-level containers. A Python dict keeps insertion order, so it is an association
  list handled with \<open>AList.update\<close> (overwrite in place or append), \<open>AList.delete\<close> and
  \<open>map_of\<close>. The set \<open>always_pick\<close> is iterated by \<open>pick\<close>, so it is a duplicate-free list;
  \<open>already_picked\<close> is only tested for membership.
\<close>

record cache =
  user_links :: "(uid \<times> string) list"
  user_stats :: "(uid \<times> stat) list"
  raffles :: "(string \<times> uid list) list"
  already_picked :: "uid set"
  always_pick :: "uid list"

text \<open>
  The tables of \<open>db_init\<close>, each a list of rows in scan order. Primary keys: \<open>user_id\<close> in
  \<open>users\<close>, \<open>stats\<close>, \<open>always_pick\<close>, \<open>picks_state\<close>, \<open>blacklist\<close>; \<open>raffle_name\<close> in
  \<open>raffles\<close> and \<open>archive_schedule\<close>; the pair \<open>(raffle_name, user_id)\<close> in
  \<open>raffle_winners\<close>. Foreign keys: \<open>stats.user_id\<close> references \<open>users\<close>, and
  \<open>raffle_winners.raffle_name\<close> references \<open>raffles\<close>. A raffle row is
  \<open>(created_at, archived)\<close>; a winner row carries \<open>picked_at\<close>. Every INSERT of the
  program gives all columns a value, so no column is NULL.

  Both foreign keys are declared without \<open>ON DELETE\<close> and without \<open>DEFERRABLE\<close>, so
  PostgreSQL checks them at the end of each statement: an INSERT of a row whose parent is
  missing and a DELETE of a parent that still has a child raise an integrity error, and the
  transaction (\<open>with DB_ENGINE.begin()\<close>) is rolled back. The comment in
  \<open>db_update_stat\<close> records such a violation in the running program. The model writes
  this check into every statement it applies to.
\<close>

record store =
  t_users :: "(uid \<times> string) list"
  t_stats :: "(uid \<times> stat) list"
  t_always_pick :: "uid list"
  t_raffles :: "(string \<times> (tstamp \<times> bool)) list"
  t_raffle_winners :: "((string \<times> uid) \<times> tstamp) list"
  t_picks_state :: "uid set"
  t_archive_schedule :: "(string \<times> tstamp) list"
  t_blacklist :: "uid set"

type_synonym state = "cache \<times> store"

text \<open>
  What a command can end with instead of its normal reply. \<open>ForeignKeyViolation\<close> is the
  integrity error PostgreSQL raises; \<open>StoreFailure\<close> is any other error of a store call;
  \<open>Forbidden\<close> is a refused Discord call (role creation or role grant).
\<close>

datatype error =
    MissingArgument
  | InvalidLink
  | AlreadyRegistered
  | Blacklisted
  | NotRegistered
  | MissingPermissions
  | NoEligibleUsers
  | KeyError
  | ForeignKeyViolation
  | StoreFailure
  | Forbidden

text \<open>\<open>discord.Status\<close>, and what a command sees of Discord through \<open>ctx\<close>.\<close>

datatype status = Online | Idle | Dnd | Offline

record ctx =
  author :: uid
  administrator :: bool
  get_member :: "uid \<Rightarrow> status option"
  role_ready :: bool
  add_roles_ok :: "uid \<Rightarrow> bool"

text \<open>
  \<open>get_member u\<close> is \<open>None\<close> when \<open>u\<close> is not in the guild and the member's status
  otherwise; \<open>role_ready\<close> says that the Winner role exists or that creating it succeeds;
  \<open>add_roles_ok u\<close> says that \<open>add_roles\<close> on member \<open>u\<close> succeeds.
\<close>

section \<open>Database helpers\<close>

definition zero_stat :: stat where
  "zero_stat = \<lparr>registrations = 0, wins = 0\<rparr>"

text \<open>
  \<open>INSERT INTO stats ... ON CONFLICT(user_id) DO ...\<close>: when the user has a row the
  conflict action \<open>f\<close> is applied to it; otherwise the row \<open>v\<close> is inserted, which the
  foreign key refuses unless \<open>users\<close> has the user.
\<close>

definition insert_stats :: "uid \<Rightarrow> stat \<Rightarrow> (stat \<Rightarrow> stat) \<Rightarrow> store \<Rightarrow> error + store" where
  "insert_stats user_id v f d =
     (if map_of (t_stats d) user_id = None \<and> map_of (t_users d) user_id = None
      then Inl ForeignKeyViolation
      else Inr (d\<lparr>t_stats := map_default user_id v f (t_stats d)\<rparr>))"

definition db_upsert_user :: "uid \<Rightarrow> string \<Rightarrow> store \<Rightarrow> error + store" where
  "db_upsert_user user_id link d =
     insert_stats user_id zero_stat (\<lambda>s. s)
       (d\<lparr>t_users := AList.update user_id link (t_users d)\<rparr>)"

text \<open>
  \<open>db_update_stat\<close> runs two transactions: the upsert of the user with the default link
  \<open>""\<close>, then the statement on \<open>stats\<close>. It returns the error raised, if any, and the
  store as the committed transactions left it.
\<close>

definition db_update_stat :: "uid \<Rightarrow> int \<Rightarrow> int \<Rightarrow> store \<Rightarrow> error option \<times> store" where
  "db_update_stat user_id delta_reg delta_wins d =
     (case db_upsert_user user_id [] d of
        Inl e \<Rightarrow> (Some e, d)
      | Inr d1 \<Rightarrow>
          (case insert_stats user_id
                  \<lparr>registrations = max delta_reg 0, wins = max delta_wins 0\<rparr>
                  (\<lambda>s. \<lparr>registrations = registrations s + delta_reg,
                         wins = wins s + delta_wins\<rparr>)
                  d1 of
             Inl e \<Rightarrow> (Some e, d1)
           | Inr d2 \<Rightarrow> (None, d2)))"

text \<open>A Python set as a duplicate-free list, and a one-column table with a primary key.\<close>

definition set_add :: "'a \<Rightarrow> 'a list \<Rightarrow> 'a list" where
  "set_add x xs = (if x \<in> set xs then xs else xs @ [x])"

definition db_set_always :: "uid \<Rightarrow> bool \<Rightarrow> store \<Rightarrow> store" where
  "db_set_always user_id add d =
     (if add then d\<lparr>t_always_pick := set_add user_id (t_always_pick d)\<rparr>
      else d\<lparr>t_always_pick := removeAll user_id (t_always_pick d)\<rparr>)"

definition db_set_picked :: "uid \<Rightarrow> bool \<Rightarrow> store \<Rightarrow> store" where
  "db_set_picked user_id add d =
     (if add then d\<lparr>t_picks_state := insert user_id (t_picks_state d)\<rparr>
      else d\<lparr>t_picks_state := t_picks_state d - {user_id}\<rparr>)"

definition db_reset_picks :: "store \<Rightarrow> store" where
  "db_reset_picks d = d\<lparr>t_picks_state := {}\<rparr>"

text \<open>\<open>now\<close> is the store's clock, the column default of \<open>created_at\<close>.\<close>

definition db_create_raffle :: "string \<Rightarrow> tstamp \<Rightarrow> store \<Rightarrow> store" where
  "db_create_raffle raffle_name now d =
     d\<lparr>t_raffles := map_default raffle_name (now, False) (\<lambda>r. r) (t_raffles d)\<rparr>"

text \<open>
  \<open>ON CONFLICT DO NOTHING\<close> keeps an existing row of the pair as it is; a new row needs
  the raffle it references.
\<close>

definition db_add_winner :: "string \<Rightarrow> uid \<Rightarrow> tstamp \<Rightarrow> store \<Rightarrow> error + store" where
  "db_add_winner raffle_name user_id now d =
     (if map_of (t_raffle_winners d) (raffle_name, user_id) \<noteq> None then Inr d
      else if map_of (t_raffles d) raffle_name = None then Inl ForeignKeyViolation
      else Inr (d\<lparr>t_raffle_winners := t_raffle_winners d @ [((raffle_name, user_id), now)]\<rparr>))"

text \<open>Both statements run in one transaction: the UPDATE of the flag and the DELETE.\<close>

definition db_archive_raffle :: "string \<Rightarrow> store \<Rightarrow> store" where
  "db_archive_raffle raffle_name d =
     d\<lparr>t_raffles := map (\<lambda>(name, created_at, archived).
                          if name = raffle_name then (name, created_at, True)
                          else (name, created_at, archived)) (t_raffles d),
       t_archive_schedule := AList.delete raffle_name (t_archive_schedule d)\<rparr>"

definition db_is_archived :: "string \<Rightarrow> store \<Rightarrow> bool" where
  "db_is_archived raffle_name d =
     (case map_of (t_raffles d) raffle_name of None \<Rightarrow> False | Some (created_at, archived) \<Rightarrow> archived)"

definition db_get_active_raffles :: "store \<Rightarrow> string list" where
  "db_get_active_raffles d = map fst (filter (\<lambda>(name, created_at, archived). \<not> archived) (t_raffles d))"

definition db_get_archived_raffles :: "store \<Rightarrow> string list" where
  "db_get_archived_raffles d = map fst (filter (\<lambda>(name, created_at, archived). archived) (t_raffles d))"

definition db_schedule_archive :: "string \<Rightarrow> tstamp \<Rightarrow> store \<Rightarrow> store" where
  "db_schedule_archive raffle_name when d =
     d\<lparr>t_archive_schedule := AList.update raffle_name when (t_archive_schedule d)\<rparr>"

definition db_get_due_archives :: "tstamp \<Rightarrow> store \<Rightarrow> string list" where
  "db_get_due_archives now d =
     map fst (filter (\<lambda>(name, archive_at). archive_at \<le> now) (t_archive_schedule d))"

definition db_user_wins :: "uid \<Rightarrow> store \<Rightarrow> string list" where
  "db_user_wins user_id d =
     map (\<lambda>((name, u), picked_at). name)
       (filter (\<lambda>((name, u), picked_at). u = user_id \<and> map_of (t_raffles d) name \<noteq> None)
          (t_raffle_winners d))"

definition is_blacklisted :: "uid \<Rightarrow> store \<Rightarrow> bool" where
  "is_blacklisted user_id d = (user_id \<in> t_blacklist d)"

section \<open>The random source\<close>

text \<open>
  \<open>random.sample\<close> and \<open>random.shuffle\<close> belong to the Python library. They are driven
  here by an explicit list of the numbers the generator returns, one per element drawn: an
  element is taken out of the remaining population at the drawn position, so the result
  holds \<open>k\<close> elements of distinct positions, and every such result comes from some
  list of numbers. Shuffling is sampling the whole list.
\<close>

fun sample :: "nat list \<Rightarrow> 'a list \<Rightarrow> nat \<Rightarrow> 'a list" where
  "sample rs xs 0 = []"
| "sample rs [] (Suc k) = []"
| "sample rs (x # xs) (Suc k) =
     (let j = (case rs of [] \<Rightarrow> 0 | r # _ \<Rightarrow> r) mod length (x # xs)
      in (x # xs) ! j # sample (tl rs) (take j (x # xs) @ drop (Suc j) (x # xs)) k)"

definition shuffle :: "nat list \<Rightarrow> 'a list \<Rightarrow> 'a list" where
  "shuffle rs xs = sample rs xs (length xs)"

section \<open>Startup and the archive watcher\<close>

text \<open>
  \<open>load_state_from_db\<close> writes the users and stats rows over the dicts it finds, and
  rebuilds the three other containers from empty. The winners of the active raffles come
  from the join of \<open>raffle_winners\<close> with \<open>raffles\<close>.
\<close>

definition active_winner_rows :: "store \<Rightarrow> (string \<times> uid) list" where
  "active_winner_rows d =
     concat (map (\<lambda>((name, u), picked_at).
                    map (\<lambda>r. (name, u))
                      (filter (\<lambda>(name', created_at, archived). name' = name \<and> \<not> archived)
                         (t_raffles d)))
             (t_raffle_winners d))"

definition load_state_from_db :: "state \<Rightarrow> state" where
  "load_state_from_db st =
     (case st of (c, d) \<Rightarrow>
        (c\<lparr>user_links := foldl (\<lambda>al (u, link). AList.update u link al) (user_links c) (t_users d),
           user_stats := foldl (\<lambda>al (u, s). AList.update u s al) (user_stats c) (t_stats d),
           always_pick := foldl (\<lambda>xs u. set_add u xs) [] (t_always_pick d),
           raffles := foldl (\<lambda>al (name, u). map_default name [u] (\<lambda>l. l @ [u]) al)
                        (foldl (\<lambda>al name. AList.update name [] al) [] (db_get_active_raffles d))
                        (active_winner_rows d),
           already_picked := t_picks_state d\<rparr>, d))"

text \<open>
  One tick of \<open>archive_watcher\<close>. The loop body has no handler, so an error of
  \<open>db_archive_raffle\<close> ends the tick; \<open>fails\<close> says for which names the transaction
  raises (its rollback leaves the store as it was).
\<close>

fun archive_loop :: "(string \<Rightarrow> bool) \<Rightarrow> string list \<Rightarrow> state \<Rightarrow> error option \<times> state" where
  "archive_loop fails [] st = (None, st)"
| "archive_loop fails (name # due) (c, d) =
     (if fails name then (Some StoreFailure, (c, d))
      else archive_loop fails due
             (c\<lparr>raffles := AList.delete name (raffles c)\<rparr>, db_archive_raffle name d))"

definition archive_watcher :: "(string \<Rightarrow> bool) \<Rightarrow> tstamp \<Rightarrow> state \<Rightarrow> error option \<times> state" where
  "archive_watcher fails now st = archive_loop fails (db_get_due_archives now (snd st)) st"

definition schedule_archive_in_5 :: "string \<Rightarrow> tstamp \<Rightarrow> state \<Rightarrow> state" where
  "schedule_archive_in_5 raffle_name now st =
     (fst st, db_schedule_archive raffle_name (now + 300) (snd st))"

section \<open>Commands\<close>

text \<open>
  A command returns its outcome and the state it leaves. An exception does not undo what
  the command did before it: the state returned with an error is the state at the raise.
  Deleting the command message and sending a reply are Discord calls that touch neither the
  containers nor the store; they are left out, and a reply is taken not to fail. A store
  call fails only where the model says so: on a foreign key, and in the archive watcher.
\<close>

definition word_chars :: string where
  "word_chars = ''ABCDEFGHIJKLMNOPQRSTUVWXYZabcdefghijklmnopqrstuvwxyz0123456789_''"

text \<open>
  The pattern of \<open>register\<close> under \<open>re.match\<close>: the scheme \<open>https\<close>, the host
  \<open>x.com\<close> or \<open>twitter.com\<close>, a slash, and one or more characters of
  \<open>[A-Za-z0-9_]\<close> up to the end; the end anchor of Python also matches before one
  final newline.
\<close>

definition link_after :: "string \<Rightarrow> string \<Rightarrow> bool" where
  "link_after prefix link =
     (take (length prefix) link = prefix \<and>
      (let r = drop (length prefix) link;
           name = (if r \<noteq> [] \<and> last r = CHR 0x0A then butlast r else r)
       in name \<noteq> [] \<and> list_all (\<lambda>ch. ch \<in> set word_chars) name))"

definition valid_link :: "string \<Rightarrow> bool" where
  "valid_link link = (link_after ''https://x.com/'' link \<or> link_after ''https://twitter.com/'' link)"

definition register :: "ctx \<Rightarrow> string option \<Rightarrow> state \<Rightarrow> (error + unit) \<times> state" where
  "register cx link st =
     (case st of (c, d) \<Rightarrow>
      (case link of
         None \<Rightarrow> (Inl MissingArgument, st)
       | Some l \<Rightarrow>
          if l = [] then (Inl MissingArgument, st)
          else if \<not> valid_link l then (Inl InvalidLink, st)
          else if map_of (user_links c) (author cx) \<noteq> None then (Inl AlreadyRegistered, st)
          else if is_blacklisted (author cx) d then (Inl Blacklisted, st)
          else
            let c1 = c\<lparr>user_links := AList.update (author cx) l (user_links c)\<rparr> in
            (case db_upsert_user (author cx) l d of
               Inl e \<Rightarrow> (Inl e, (c1, d))
             | Inr d1 \<Rightarrow>
                let c2 = c1\<lparr>user_stats :=
                              map_default (author cx) \<lparr>registrations = 1, wins = 0\<rparr>
                                (\<lambda>s. s\<lparr>registrations := registrations s + 1\<rparr>) (user_stats c1)\<rparr> in
                (case db_update_stat (author cx) 1 0 d1 of
                   (Some e, d2) \<Rightarrow> (Inl e, (c2, d2))
                 | (None, d2) \<Rightarrow> (Inr (), (c2, d2))))))"

text \<open>
  The transaction of \<open>unregister\<close>: five DELETE statements, in the order \<open>users\<close>,
  \<open>stats\<close>, \<open>always_pick\<close>, \<open>raffle_winners\<close>, \<open>picks_state\<close>. The foreign key of
  \<open>stats\<close> is checked at the end of the first statement, before the second one runs: when
  the user deleted from \<open>users\<close> still has a \<open>stats\<close> row the statement raises and the
  transaction is rolled back, so none of the five deletes takes effect. The containers are
  cleared before the transaction and stay cleared.
\<close>

definition unregister_tx :: "uid \<Rightarrow> store \<Rightarrow> error + store" where
  "unregister_tx user_id d =
     (if map_of (t_users d) user_id \<noteq> None \<and> map_of (t_stats d) user_id \<noteq> None
      then Inl ForeignKeyViolation
      else Inr (d\<lparr>t_users := AList.delete user_id (t_users d),
                  t_stats := AList.delete user_id (t_stats d),
                  t_always_pick := removeAll user_id (t_always_pick d),
                  t_raffle_winners := filter (\<lambda>((name, u), picked_at). u \<noteq> user_id)
                                        (t_raffle_winners d),
                  t_picks_state := t_picks_state d - {user_id}\<rparr>))"

definition unregister :: "ctx \<Rightarrow> uid option \<Rightarrow> state \<Rightarrow> (error + unit) \<times> state" where
  "unregister cx member st =
     (case st of (c, d) \<Rightarrow>
      let target = (case member of None \<Rightarrow> author cx | Some m \<Rightarrow> m) in
      if map_of (t_users d) target = None then (Inl NotRegistered, st)
      else if member \<noteq> None \<and> \<not> administrator cx then (Inl MissingPermissions, st)
      else
        let c1 = c\<lparr>user_links := AList.delete target (user_links c),
                   already_picked := already_picked c - {target},
                   always_pick := removeAll target (always_pick c),
                   user_stats := AList.delete target (user_stats c)\<rparr> in
        (case unregister_tx target d of
           Inl e \<Rightarrow> (Inl e, (c1, d))
         | Inr d1 \<Rightarrow> (Inr (), (c1, d1))))"

definition blacklist :: "ctx \<Rightarrow> uid \<Rightarrow> state \<Rightarrow> (error + unit) \<times> state" where
  "blacklist cx member st =
     (if \<not> administrator cx then (Inl MissingPermissions, st)
      else (Inr (), (fst st, (snd st)\<lparr>t_blacklist := insert member (t_blacklist (snd st))\<rparr>)))"

definition unblacklist :: "ctx \<Rightarrow> uid \<Rightarrow> state \<Rightarrow> (error + unit) \<times> state" where
  "unblacklist cx member st =
     (if \<not> administrator cx then (Inl MissingPermissions, st)
      else (Inr (), (fst st, (snd st)\<lparr>t_blacklist := t_blacklist (snd st) - {member}\<rparr>)))"

definition always_add :: "ctx \<Rightarrow> uid \<Rightarrow> state \<Rightarrow> (error + unit) \<times> state" where
  "always_add cx member st =
     (if \<not> administrator cx then (Inl MissingPermissions, st)
      else (Inr (), ((fst st)\<lparr>always_pick := set_add member (always_pick (fst st))\<rparr>,
                     db_set_always member True (snd st))))"

definition always_remove :: "ctx \<Rightarrow> uid \<Rightarrow> state \<Rightarrow> (error + unit) \<times> state" where
  "always_remove cx member st =
     (if \<not> administrator cx then (Inl MissingPermissions, st)
      else (Inr (), ((fst st)\<lparr>always_pick := removeAll member (always_pick (fst st))\<rparr>,
                     db_set_always member False (snd st))))"

definition reset_picks :: "ctx \<Rightarrow> state \<Rightarrow> (error + unit) \<times> state" where
  "reset_picks cx st =
     (if \<not> administrator cx then (Inl MissingPermissions, st)
      else (Inr (), ((fst st)\<lparr>already_picked := {}\<rparr>, db_reset_picks (snd st))))"

section \<open>The draw\<close>

text \<open>
  The two comprehensions of \<open>pick\<close>. A member object is truthy, so the walrus test is
  \<open>get_member uid \<noteq> None\<close>; members are identified by their ids.
\<close>

definition priority_winners :: "ctx \<Rightarrow> state \<Rightarrow> uid list" where
  "priority_winners cx st =
     (case st of (c, d) \<Rightarrow>
        filter (\<lambda>uid. get_member cx uid \<noteq> None \<and> uid \<notin> already_picked c \<and>
                      \<not> is_blacklisted uid d)
          (always_pick c))"

definition eligible :: "ctx \<Rightarrow> state \<Rightarrow> uid list" where
  "eligible cx st =
     (case st of (c, d) \<Rightarrow>
        filter (\<lambda>uid. get_member cx uid \<noteq> None \<and> uid \<notin> already_picked c \<and>
                      get_member cx uid = Some Online \<and> uid \<notin> set (always_pick c) \<and>
                      \<not> is_blacklisted uid d)
          (map fst (user_links c)))"

text \<open>
  The winner list before the shuffle: all priority winners, then a sample of the eligible
  users for what is left of \<open>number\<close>. \<open>rs\<close> are the numbers \<open>random.sample\<close> draws.
\<close>

definition select_winners :: "ctx \<Rightarrow> nat list \<Rightarrow> int \<Rightarrow> state \<Rightarrow> uid list" where
  "select_winners cx rs number st =
     (let pw = priority_winners cx st;
          el = eligible cx st;
          winners = (if pw \<noteq> [] then pw else []);
          number' = (if pw \<noteq> [] then number - int (length pw) else number)
      in if number' > 0 \<and> el \<noteq> []
         then winners @ sample rs el (min (nat number') (length el))
         else winners)"

text \<open>
  The body of the loop over the winners, in the order of the source: the two cache
  updates, \<open>db_add_winner\<close>, \<open>db_set_picked\<close>, \<open>db_update_stat\<close>, the cache counter, and
  last \<open>add_roles\<close>, which is awaited with no handler.
\<close>

definition award_winner :: "ctx \<Rightarrow> string \<Rightarrow> tstamp \<Rightarrow> uid \<Rightarrow> state \<Rightarrow> error option \<times> state" where
  "award_winner cx raffle_name now w st =
     (case st of (c, d) \<Rightarrow>
      let c1 = c\<lparr>already_picked := insert w (already_picked c)\<rparr> in
      (case map_of (raffles c1) raffle_name of
         None \<Rightarrow> (Some KeyError, (c1, d))
       | Some l \<Rightarrow>
          let c2 = c1\<lparr>raffles := AList.update raffle_name (l @ [w]) (raffles c1)\<rparr> in
          (case db_add_winner raffle_name w now d of
             Inl e \<Rightarrow> (Some e, (c2, d))
           | Inr d1 \<Rightarrow>
              (case db_update_stat w 0 1 (db_set_picked w True d1) of
                 (Some e, d2) \<Rightarrow> (Some e, (c2, d2))
               | (None, d2) \<Rightarrow>
                  let c3 = c2\<lparr>user_stats :=
                                map_default w \<lparr>registrations = 0, wins = 1\<rparr>
                                  (\<lambda>s. s\<lparr>wins := wins s + 1\<rparr>) (user_stats c2)\<rparr> in
                  if add_roles_ok cx w then (None, (c3, d2))
                  else (Some Forbidden, (c3, d2))))))"

fun award_winners :: "ctx \<Rightarrow> string \<Rightarrow> tstamp \<Rightarrow> uid list \<Rightarrow> state \<Rightarrow> error option \<times> state" where
  "award_winners cx raffle_name now [] st = (None, st)"
| "award_winners cx raffle_name now (w # ws) st =
     (case award_winner cx raffle_name now w st of
        (Some e, st') \<Rightarrow> (Some e, st')
      | (None, st') \<Rightarrow> award_winners cx raffle_name now ws st')"

text \<open>
  \<open>pick\<close>: the administrator check of the decorator, the selection, the reply for an
  empty list, the shuffle (\<open>ss\<close> are the numbers it draws), the raffle entry in the cache
  and in the store, the Winner role, and the loop. The result is the shuffled winner list
  when the command reaches its end.
\<close>

definition pick ::
  "ctx \<Rightarrow> nat list \<Rightarrow> nat list \<Rightarrow> string \<Rightarrow> int \<Rightarrow> tstamp \<Rightarrow> state \<Rightarrow> (error + uid list) \<times> state" where
  "pick cx rs ss raffle_name number now st =
     (if \<not> administrator cx then (Inl MissingPermissions, st)
      else
        let winners = select_winners cx rs number st in
        if winners = [] then (Inl NoEligibleUsers, st)
        else
          let winners' = shuffle ss winners;
              st1 = ((fst st)\<lparr>raffles := map_default raffle_name [] (\<lambda>l. l) (raffles (fst st))\<rparr>,
                     db_create_raffle raffle_name now (snd st))
          in if \<not> role_ready cx then (Inl Forbidden, st1)
             else (case award_winners cx raffle_name now winners' st1 of
                     (Some e, st2) \<Rightarrow> (Inl e, st2)
                   | (None, st2) \<Rightarrow> (Inr winners', st2)))"

section \<open>Resets, profile, and runs of commands\<close>

definition empty_cache :: cache where
  "empty_cache = \<lparr>user_links = [], user_stats = [], raffles = [], already_picked = {},
                   always_pick = []\<rparr>"

definition empty_store :: store where
  "empty_store = \<lparr>t_users = [], t_stats = [], t_always_pick = [], t_raffles = [],
                   t_raffle_winners = [], t_picks_state = {}, t_archive_schedule = [],
                   t_blacklist = {}\<rparr>"

text \<open>
  \<open>reset_db\<close> deletes from \<open>users\<close> first and from \<open>raffles\<close> second, in one
  transaction: each of the two statements is refused while a row of \<open>stats\<close> or of
  \<open>raffle_winners\<close> references a row it deletes. The containers are cleared after the
  transaction, so not when it raises.
\<close>

definition reset_db_tx :: "store \<Rightarrow> error + store" where
  "reset_db_tx d =
     (if list_ex (\<lambda>(u, s). map_of (t_users d) u \<noteq> None) (t_stats d) then Inl ForeignKeyViolation
      else if list_ex (\<lambda>((name, u), picked_at). map_of (t_raffles d) name \<noteq> None)
                (t_raffle_winners d)
      then Inl ForeignKeyViolation
      else Inr empty_store)"

definition reset_db :: "ctx \<Rightarrow> state \<Rightarrow> (error + unit) \<times> state" where
  "reset_db cx st =
     (if \<not> administrator cx then (Inl MissingPermissions, st)
      else (case reset_db_tx (snd st) of
              Inl e \<Rightarrow> (Inl e, st)
            | Inr d1 \<Rightarrow> (Inr (), (empty_cache, d1))))"

definition reset_raffles_tx :: "store \<Rightarrow> error + store" where
  "reset_raffles_tx d =
     (if list_ex (\<lambda>((name, u), picked_at). map_of (t_raffles d) name \<noteq> None)
           (t_raffle_winners d)
      then Inl ForeignKeyViolation
      else Inr (d\<lparr>t_raffles := [], t_stats := [], t_raffle_winners := [],
                  t_picks_state := {}, t_archive_schedule := []\<rparr>))"

definition reset_raffles :: "ctx \<Rightarrow> state \<Rightarrow> (error + unit) \<times> state" where
  "reset_raffles cx st =
     (if \<not> administrator cx then (Inl MissingPermissions, st)
      else (case reset_raffles_tx (snd st) of
              Inl e \<Rightarrow> (Inl e, st)
            | Inr d1 \<Rightarrow> (Inr (), ((fst st)\<lparr>raffles := [], user_stats := [],
                                            already_picked := {}\<rparr>, d1))))"

text \<open>\<open>profile\<close> only adds a zero entry to \<open>user_stats\<close> for a user who has none.\<close>

definition profile :: "uid \<Rightarrow> state \<Rightarrow> state" where
  "profile user st =
     ((fst st)\<lparr>user_stats := map_default user zero_stat (\<lambda>s. s) (user_stats (fst st))\<rparr>, snd st)"

text \<open>
  Everything that changes the state, as one type: the commands, the export that ends with
  \<open>schedule_archive_in_5\<close>, a tick of the watcher, \<open>on_ready\<close> on the running process,
  and a restart of the process (\<open>on_ready\<close> on fresh containers).
\<close>

datatype command =
    Register ctx "string option"
  | Unregister ctx "uid option"
  | Blacklist ctx uid
  | Unblacklist ctx uid
  | AlwaysAdd ctx uid
  | AlwaysRemove ctx uid
  | Pick ctx "nat list" "nat list" string int tstamp
  | ResetPicks ctx
  | Profile uid
  | Export string tstamp
  | ArchiveTick "string \<Rightarrow> bool" tstamp
  | ResetDb ctx
  | ResetRaffles ctx
  | OnReady
  | Restart

fun exec :: "command \<Rightarrow> state \<Rightarrow> state" where
  "exec (Register cx link) st = snd (register cx link st)"
| "exec (Unregister cx member) st = snd (unregister cx member st)"
| "exec (Blacklist cx member) st = snd (blacklist cx member st)"
| "exec (Unblacklist cx member) st = snd (unblacklist cx member st)"
| "exec (AlwaysAdd cx member) st = snd (always_add cx member st)"
| "exec (AlwaysRemove cx member) st = snd (always_remove cx member st)"
| "exec (Pick cx rs ss raffle_name number now) st = snd (pick cx rs ss raffle_name number now st)"
| "exec (ResetPicks cx) st = snd (reset_picks cx st)"
| "exec (Profile user) st = profile user st"
| "exec (Export raffle_name now) st = schedule_archive_in_5 raffle_name now st"
| "exec (ArchiveTick fails now) st = snd (archive_watcher fails now st)"
| "exec (ResetDb cx) st = snd (reset_db cx st)"
| "exec (ResetRaffles cx) st = snd (reset_raffles cx st)"
| "exec OnReady st = load_state_from_db st"
| "exec Restart st = load_state_from_db (empty_cache, snd st)"

fun run :: "command list \<Rightarrow> state \<Rightarrow> state" where
  "run [] st = st"
| "run (cmd # cmds) st = run cmds (exec cmd st)"

section \<open>What the claims observe\<close>

text \<open>
  The counters of a user's \<open>stats\<close> row (zero when there is no row), the user's rows of
  \<open>raffle_winners\<close>, and the part of the winner list that is not a priority winner.
\<close>

definition stat_wins :: "uid \<Rightarrow> store \<Rightarrow> int" where
  "stat_wins u d = (case map_of (t_stats d) u of None \<Rightarrow> 0 | Some s \<Rightarrow> wins s)"

definition stat_registrations :: "uid \<Rightarrow> store \<Rightarrow> int" where
  "stat_registrations u d = (case map_of (t_stats d) u of None \<Rightarrow> 0 | Some s \<Rightarrow> registrations s)"

definition winner_rows :: "uid \<Rightarrow> store \<Rightarrow> ((string \<times> uid) \<times> tstamp) list" where
  "winner_rows u d = filter (\<lambda>row. snd (fst row) = u) (t_raffle_winners d)"

definition remainder :: "ctx \<Rightarrow> nat list \<Rightarrow> int \<Rightarrow> state \<Rightarrow> uid list" where
  "remainder cx rs number st =
     sample rs (eligible cx st)
       (min (nat (number - int (length (priority_winners cx st)))) (length (eligible cx st)))"

text \<open>
  The due entries that a tick of the watcher gets through: those before the first one whose
  archive transaction raises.
\<close>

definition archived_in_tick :: "(string \<Rightarrow> bool) \<Rightarrow> tstamp \<Rightarrow> store \<Rightarrow> string list" where
  "archived_in_tick fails now d = takeWhile (\<lambda>name. \<not> fails name) (db_get_due_archives now d)"

text \<open>
  The winners that the loop of \<open>pick\<close> reaches: all of them up to and including the first
  one whose role grant fails.
\<close>

fun awarded :: "ctx \<Rightarrow> uid list \<Rightarrow> uid list" where
  "awarded cx [] = []"
| "awarded cx (w # ws) = w # (if add_roles_ok cx w then awarded cx ws else [])"

text \<open>
  What one pass of the loop body leaves in the containers and in the store when the raffle
  is there (the facts \<open>award_winner_closed\<close> and \<open>award_winners_closed\<close> below relate
  them to the loop).
\<close>

definition award_cache :: "string \<Rightarrow> uid \<Rightarrow> cache \<Rightarrow> cache" where
  "award_cache raffle_name w c =
     c\<lparr>already_picked := insert w (already_picked c),
       raffles := AList.map_entry raffle_name (\<lambda>l. l @ [w]) (raffles c),
       user_stats := map_default w \<lparr>registrations = 0, wins = 1\<rparr>
                       (\<lambda>s. s\<lparr>wins := wins s + 1\<rparr>) (user_stats c)\<rparr>"

definition award_store :: "string \<Rightarrow> tstamp \<Rightarrow> uid \<Rightarrow> store \<Rightarrow> store" where
  "award_store raffle_name now w d =
     snd (db_update_stat w 0 1
       (db_set_picked w True
          (if map_of (t_raffle_winners d) (raffle_name, w) = None
           then d\<lparr>t_raffle_winners := t_raffle_winners d @ [((raffle_name, w), now)]\<rparr>
           else d)))"

text \<open>
  The two relations between the wins counter and the winner rows that Claim C3 is about:
  every user's counter is at least, or is exactly, the number of the user's winner rows.
\<close>

definition wins_cover_rows :: "store \<Rightarrow> bool" where
  "wins_cover_rows d = (\<forall>u. int (length (winner_rows u d)) \<le> stat_wins u d)"

definition wins_match_rows :: "store \<Rightarrow> bool" where
  "wins_match_rows d = (\<forall>u. int (length (winner_rows u d)) = stat_wins u d)"

text \<open>The keys of the dict \<open>user_links\<close> and the elements of the set \<open>always_pick\<close> are distinct.\<close>

definition cache_keys_distinct :: "cache \<Rightarrow> bool" where
  "cache_keys_distinct c = (distinct (map fst (user_links c)) \<and> distinct (always_pick c))"

text \<open>
  A run in which no draw selects a user who already has a winner row under the raffle name
  of that draw.
\<close>

fun fresh_win :: "command \<Rightarrow> state \<Rightarrow> bool" where
  "fresh_win (Pick cx rs ss raffle_name number now) st =
     list_all (\<lambda>w. map_of (t_raffle_winners (snd st)) (raffle_name, w) = None)
       (select_winners cx rs number st)"
| "fresh_win cmd st = True"

fun fresh_wins :: "command list \<Rightarrow> state \<Rightarrow> bool" where
  "fresh_wins [] st = True"
| "fresh_wins (cmd # cmds) st = (fresh_win cmd st \<and> fresh_wins cmds (exec cmd st))"

text \<open>
  The state of \<open>raffle_winners\<close> that Claim C5 is about: the pairs of raffle and user are
  distinct (the primary key), and every winner row has its raffle row (the foreign key),
  and a \<open>users\<close> row and a \<open>stats\<close> row of its user, which \<open>db_update_stat\<close> writes for
  every winner in the same pass of the loop. The empty store is in that state.
\<close>

definition winners_backed :: "store \<Rightarrow> bool" where
  "winners_backed d =
     (distinct (map fst (t_raffle_winners d)) \<and>
      list_all (\<lambda>((name, u), picked_at).
                  map_of (t_users d) u \<noteq> None \<and> map_of (t_stats d) u \<noteq> None \<and>
                  map_of (t_raffles d) name \<noteq> None)
        (t_raffle_winners d))"

section \<open>Example states\<close>

text \<open>
  An administrator 9 and four members, all online; the store after the three users 2, 3, 4
  registered and user 1 was put on the always-pick list; the containers as \<open>on_ready\<close>
  builds them from that store.
\<close>

definition ex_ctx :: ctx where
  "ex_ctx = \<lparr>author = 9, administrator = True,
             get_member = [1 \<mapsto> Online, 2 \<mapsto> Online, 3 \<mapsto> Online, 4 \<mapsto> Online],
             role_ready = True, add_roles_ok = (\<lambda>u. True)\<rparr>"

definition ex_store :: store where
  "ex_store = \<lparr>t_users = [(2, []), (3, []), (4, [])],
                t_stats = [(2, \<lparr>registrations = 1, wins = 0\<rparr>),
                           (3, \<lparr>registrations = 1, wins = 0\<rparr>),
                           (4, \<lparr>registrations = 1, wins = 0\<rparr>)],
                t_always_pick = [1], t_raffles = [], t_raffle_winners = [],
                t_picks_state = {}, t_archive_schedule = [], t_blacklist = {}\<rparr>"

definition ex_state :: state where
  "ex_state = load_state_from_db (empty_cache, ex_store)"

text \<open>The same with the users 1 and 2 both on the always-pick list.\<close>

definition ex_state2 :: state where
  "ex_state2 = snd (always_add ex_ctx 2 ex_state)"

text \<open>The same with every user on the blacklist.\<close>

definition ex_state_barred :: state where
  "ex_state_barred = (fst ex_state, ex_store\<lparr>t_blacklist := {1, 2, 3, 4}\<rparr>)"

text \<open>The same with user 1, who is on the always-pick list, on the blacklist.\<close>

definition ex_state_barred1 :: state where
  "ex_state_barred1 = (fst ex_state, ex_store\<lparr>t_blacklist := {1}\<rparr>)"

text \<open>User 1 as the author of a command, without administrator rights, and a valid link.\<close>

definition ex_user1 :: ctx where
  "ex_user1 = ex_ctx\<lparr>author := 1, administrator := False\<rparr>"

definition ex_link :: string where
  "ex_link = ''https://x.com/vox_1''"

text \<open>
  Three runs from the start of a deployment or from \<open>ex_state\<close>: a user registers,
  unregisters and registers again; a raffle is drawn, exported, archived by the watcher
  five minutes later, and drawn again under the same name; the same raffle is drawn twice
  with a reset of the picks in between.
\<close>

definition ex_reregister :: "command list" where
  "ex_reregister = [Register ex_user1 (Some ex_link), Unregister ex_user1 None,
                    Register ex_user1 (Some ex_link)]"

definition ex_redraw_archived :: "command list" where
  "ex_redraw_archived = [Pick ex_ctx [] [] ''SpaceA'' 1 100, Export ''SpaceA'' 200,
                         ArchiveTick (\<lambda>name. False) 500, Pick ex_ctx [0] [] ''SpaceA'' 1 600]"

definition ex_rewin :: "command list" where
  "ex_rewin = [Pick ex_ctx [] [] ''SpaceA'' 1 100, ResetPicks ex_ctx,
               Pick ex_ctx [] [] ''SpaceA'' 1 200]"


text \<open>The administrator's context when the role grant to one member is refused.\<close>

definition ex_ctx_deny :: "uid \<Rightarrow> ctx" where
  "ex_ctx_deny u = ex_ctx\<lparr>add_roles_ok := (\<lambda>v. v \<noteq> u)\<rparr>"

text \<open>Two raffles drawn one after the other with a reset of the picks in between.\<close>

definition ex_two_draws :: "command list" where
  "ex_two_draws = [Pick ex_ctx [] [] ''SpaceA'' 1 100, ResetPicks ex_ctx,
                   Pick ex_ctx [] [] ''SpaceB'' 1 200]"

text \<open>
  The state after user 1 has won \<open>SpaceA\<close>, and the commands that hold a DELETE on
  \<open>raffle_winners\<close>: the winner unregisters, an administrator unregisters the winner,
  \<open>reset_raffles\<close> and \<open>reset_db\<close>.
\<close>

definition ex_won :: state where
  "ex_won = run [Pick ex_ctx [] [] ''SpaceA'' 1 100] ex_state"

definition ex_purge :: "command list" where
  "ex_purge = [Unregister ex_user1 None, Unregister ex_ctx (Some 1), ResetRaffles ex_ctx,
               ResetDb ex_ctx]"

section \<open>Auxiliary facts\<close>

subsection \<open>Sampling and shuffling\<close>

lemma length_sample: "length (sample rs xs k) = min k (length xs)"
  by (induction rs xs k rule: sample.induct) (auto simp: Let_def)

lemma mset_sample_subset: "mset (sample rs xs k) \<subseteq># mset xs"
proof (induction rs xs k rule: sample.induct)
  case (3 rs x xs k)
  define ys where "ys = x # xs"
  define j where "j = (case rs of [] \<Rightarrow> 0 | r # _ \<Rightarrow> r) mod length ys"
  have j: "j < length ys" unfolding j_def ys_def by simp
  have split: "mset ys = add_mset (ys ! j) (mset (take j ys @ drop (Suc j) ys))"
    using j by (metis id_take_nth_drop mset.simps(2) mset_append union_mset_add_mset_right)
  have ih: "mset (sample (tl rs) (take j ys @ drop (Suc j) ys) k)
              \<subseteq># mset (take j ys @ drop (Suc j) ys)"
    using "3.IH"[of j] unfolding j_def ys_def by simp
  have "sample rs ys (Suc k) = ys ! j # sample (tl rs) (take j ys @ drop (Suc j) ys) k"
    unfolding ys_def j_def by (simp add: Let_def)
  then show ?case unfolding ys_def[symmetric] using ih split
    by (simp add: mset_subset_eq_add_mset_cancel)
qed simp_all

lemma set_sample: "set (sample rs xs k) \<subseteq> set xs"
  using mset_sample_subset[of rs xs k] by (metis set_mset_mono set_mset_mset)

lemma distinct_sample: "distinct xs \<Longrightarrow> distinct (sample rs xs k)"
proof -
  assume d: "distinct xs"
  have "count (mset (sample rs xs k)) a \<le> count (mset xs) a" for a
    using mset_sample_subset[of rs xs k] by (rule mset_subset_eq_count)
  moreover have "count (mset xs) a \<le> 1" for a
    using d by (simp add: distinct_count_atmost_1)
  ultimately have "count (mset (sample rs xs k)) a \<le> 1" for a
    using order_trans by blast
  then show ?thesis
    unfolding distinct_count_atmost_1 by (metis count_mset_0_iff le_Suc_eq le_zero_eq One_nat_def)
qed

lemma mset_shuffle: "mset (shuffle ss xs) = mset xs"
proof -
  have "mset (shuffle ss xs) \<subseteq># mset xs" unfolding shuffle_def by (rule mset_sample_subset)
  moreover have "size (mset (shuffle ss xs)) = size (mset xs)"
    by (simp add: shuffle_def length_sample)
  ultimately show ?thesis by (metis mset_subset_size subset_mset.less_le size_mset nat_neq_iff)
qed

lemma set_shuffle: "set (shuffle ss xs) = set xs"
  by (metis mset_shuffle set_mset_mset)

lemma length_shuffle: "length (shuffle ss xs) = length xs"
  by (simp add: shuffle_def length_sample)

lemma distinct_shuffle: "distinct (shuffle ss xs) = distinct xs"
  by (metis mset_shuffle mset_eq_imp_distinct_iff)

subsection \<open>The selection\<close>

lemma select_winners_eq:
  "select_winners cx rs number st = priority_winners cx st @ remainder cx rs number st"
proof -
  have "sample rs xs 0 = []" for xs :: "uid list" by simp
  moreover have "sample rs [] k = []" for k by (cases k) simp_all
  ultimately show ?thesis
    by (cases "priority_winners cx st = []")
       (auto simp: select_winners_def remainder_def Let_def not_less)
qed

lemma length_remainder:
  "length (remainder cx rs number st) =
     min (nat (number - int (length (priority_winners cx st)))) (length (eligible cx st))"
  by (simp add: remainder_def length_sample)

lemma pick_Inr:
  assumes "fst (pick cx rs ss raffle_name number now st) = Inr ws"
  shows "ws = shuffle ss (select_winners cx rs number st)"
    and "administrator cx" and "role_ready cx" and "select_winners cx rs number st \<noteq> []"
  using assms
  by (auto simp: pick_def Let_def split: if_splits prod.splits option.splits)

lemma not_blacklisted_priority:
  "u \<in> set (priority_winners cx st) \<Longrightarrow> u \<notin> t_blacklist (snd st)"
  by (cases st) (simp add: priority_winners_def is_blacklisted_def)

lemma not_blacklisted_eligible:
  "u \<in> set (eligible cx st) \<Longrightarrow> u \<notin> t_blacklist (snd st)"
  by (cases st) (simp add: eligible_def is_blacklisted_def)

lemma set_select_winners:
  "set (select_winners cx rs number st) \<subseteq> set (priority_winners cx st) \<union> set (eligible cx st)"
  using set_sample[of rs "eligible cx st"]
  by (auto simp: select_winners_eq remainder_def)

subsection \<open>The store helpers\<close>

lemma db_upsert_user_ok:
  "db_upsert_user u link d =
     Inr (d\<lparr>t_users := AList.update u link (t_users d),
            t_stats := map_default u zero_stat (\<lambda>s. s) (t_stats d)\<rparr>)"
  by (simp add: db_upsert_user_def insert_stats_def update_conv')

lemma db_update_stat_ok:
  "db_update_stat u dr dw d =
     (None, d\<lparr>t_users := AList.update u [] (t_users d),
              t_stats := map_default u \<lparr>registrations = max dr 0, wins = max dw 0\<rparr>
                           (\<lambda>s. \<lparr>registrations = registrations s + dr, wins = wins s + dw\<rparr>)
                           (map_default u zero_stat (\<lambda>s. s) (t_stats d))\<rparr>)"
  by (simp add: db_update_stat_def db_upsert_user_ok insert_stats_def map_of_map_default
      update_conv')

lemma stats_after_update:
  "map_of (t_stats (snd (db_update_stat u dr dw d))) u' =
     (if u' = u
      then Some (case map_of (t_stats d) u of
                   None \<Rightarrow> \<lparr>registrations = dr, wins = dw\<rparr>
                 | Some s \<Rightarrow> \<lparr>registrations = registrations s + dr, wins = wins s + dw\<rparr>)
      else map_of (t_stats d) u')"
  by (simp add: db_update_stat_ok map_of_map_default zero_stat_def split: option.splits)

lemma stat_wins_update:
  "stat_wins u' (snd (db_update_stat u dr dw d)) = stat_wins u' d + (if u' = u then dw else 0)"
  by (simp add: stat_wins_def stats_after_update split: option.splits)

lemma update_stat_frame:
  "t_raffle_winners (snd (db_update_stat u dr dw d)) = t_raffle_winners d"
  "t_raffles (snd (db_update_stat u dr dw d)) = t_raffles d"
  "t_picks_state (snd (db_update_stat u dr dw d)) = t_picks_state d"
  "t_always_pick (snd (db_update_stat u dr dw d)) = t_always_pick d"
  "t_archive_schedule (snd (db_update_stat u dr dw d)) = t_archive_schedule d"
  "t_blacklist (snd (db_update_stat u dr dw d)) = t_blacklist d"
  by (simp_all add: db_update_stat_ok)

subsection \<open>The archive loop\<close>

lemma archive_loop_closed:
  "archive_loop fails due (c, d) =
     (if list_all (\<lambda>n. \<not> fails n) due then None else Some StoreFailure,
      (c\<lparr>raffles := filter (\<lambda>p. fst p \<notin> set (takeWhile (\<lambda>n. \<not> fails n) due)) (raffles c)\<rparr>,
       d\<lparr>t_raffles := map (\<lambda>(n, cr, a). (n, cr, a \<or> n \<in> set (takeWhile (\<lambda>n. \<not> fails n) due)))
                         (t_raffles d),
         t_archive_schedule := filter (\<lambda>p. fst p \<notin> set (takeWhile (\<lambda>n. \<not> fails n) due))
                                 (t_archive_schedule d)\<rparr>))"
proof (induction due arbitrary: c d)
  case Nil
  then show ?case by simp
next
  case (Cons name due)
  show ?case
  proof (cases "fails name")
    case True
    then show ?thesis by simp
  next
    case False
    have m: "map (\<lambda>(n, cr, a). (n, cr, a \<or> n \<in> S))
               (map (\<lambda>(n, cr, a). if n = name then (n, cr, True) else (n, cr, a)) xs)
             = map (\<lambda>(n, cr, a). (n, cr, a \<or> n = name \<or> n \<in> S)) xs"
      for S and xs :: "(string \<times> tstamp \<times> bool) list"
      by (induction xs) auto
    have f: "filter (\<lambda>p. fst p \<notin> S) (AList.delete name xs)
             = filter (\<lambda>p. fst p \<noteq> name \<and> fst p \<notin> S) xs"
      for S and xs :: "(string \<times> 'b) list"
      by (induction xs) auto
    show ?thesis using False
      by (simp add: Cons.IH db_archive_raffle_def m f del: map_map)
  qed
qed

lemma archive_watcher_closed:
  "archive_watcher fails now (c, d) =
     (if list_all (\<lambda>n. \<not> fails n) (db_get_due_archives now d) then None else Some StoreFailure,
      (c\<lparr>raffles := filter (\<lambda>p. fst p \<notin> set (archived_in_tick fails now d)) (raffles c)\<rparr>,
       d\<lparr>t_raffles := map (\<lambda>(n, cr, a). (n, cr, a \<or> n \<in> set (archived_in_tick fails now d)))
                         (t_raffles d),
         t_archive_schedule := filter (\<lambda>p. fst p \<notin> set (archived_in_tick fails now d))
                                 (t_archive_schedule d)\<rparr>))"
  by (simp add: archive_watcher_def archive_loop_closed archived_in_tick_def)


lemma map_of_flag_raffles:
  "map_of (map (\<lambda>(n, cr, a). (n, cr, a \<or> n \<in> S)) xs) k =
     map_option (\<lambda>(cr, a). (cr, a \<or> k \<in> S)) (map_of xs k)"
  by (induction xs) auto

subsection \<open>The loop over the winners\<close>

lemma update_as_map_entry:
  "map_of xs k = Some l \<Longrightarrow>
     AList.update k (l @ [w]) xs = AList.map_entry k (\<lambda>l. l @ [w]) xs"
  by (induction xs) auto

lemma award_winner_closed:
  assumes "map_of (raffles c) rn \<noteq> None" and "map_of (t_raffles d) rn \<noteq> None"
  shows "award_winner cx rn now w (c, d) =
     (if add_roles_ok cx w then None else Some Forbidden,
      (award_cache rn w c, award_store rn now w d))"
  using assms
  by (auto simp: award_winner_def db_add_winner_def db_update_stat_ok Let_def
        award_cache_def award_store_def update_as_map_entry)

lemma award_cache_raffles: "map_of (raffles (award_cache rn w c)) k =
   (if k = rn then map_option (\<lambda>l. l @ [w]) (map_of (raffles c) rn) else map_of (raffles c) k)"
  by (auto simp: award_cache_def map_of_map_entry split: option.splits)

lemma award_store_frame:
  "t_raffles (award_store rn now w d) = t_raffles d"
  "t_always_pick (award_store rn now w d) = t_always_pick d"
  "t_archive_schedule (award_store rn now w d) = t_archive_schedule d"
  "t_blacklist (award_store rn now w d) = t_blacklist d"
  "t_picks_state (award_store rn now w d) = insert w (t_picks_state d)"
  "t_raffle_winners (award_store rn now w d) =
     t_raffle_winners d @
       (if map_of (t_raffle_winners d) (rn, w) = None then [((rn, w), now)] else [])"
  by (simp_all add: award_store_def update_stat_frame db_set_picked_def)

lemma award_store_wins:
  "stat_wins u (award_store rn now w d) = stat_wins u d + (if u = w then 1 else 0)"
  by (simp add: award_store_def stat_wins_update) (simp add: stat_wins_def db_set_picked_def)

lemma award_store_keys:
  "fst ` set (t_users (award_store rn now w d)) = insert w (fst ` set (t_users d))"
  "fst ` set (t_stats (award_store rn now w d)) = insert w (fst ` set (t_stats d))"
  by (auto simp: award_store_def db_update_stat_ok db_set_picked_def dom_update dom_map_default)

lemma award_winners_closed:
  assumes "map_of (raffles c) rn \<noteq> None" and "map_of (t_raffles d) rn \<noteq> None"
  shows "award_winners cx rn now ws (c, d) =
     (if list_all (add_roles_ok cx) ws then None else Some Forbidden,
      (foldl (\<lambda>c w. award_cache rn w c) c (awarded cx ws),
       foldl (\<lambda>d w. award_store rn now w d) d (awarded cx ws)))"
  using assms
proof (induction ws arbitrary: c d)
  case Nil
  then show ?case by simp
next
  case (Cons w ws)
  have c1: "map_of (raffles (award_cache rn w c)) rn \<noteq> None"
    using Cons.prems(1) by (simp add: award_cache_raffles)
  have d1: "map_of (t_raffles (award_store rn now w d)) rn \<noteq> None"
    using Cons.prems(2) by (simp add: award_store_frame)
  show ?case
    using Cons.IH[OF c1 d1] Cons.prems
    by (simp add: award_winner_closed)
qed

lemma awards_picks_state:
  "t_picks_state (foldl (\<lambda>d w. award_store rn now w d) d xs) = t_picks_state d \<union> set xs"
  by (induction xs arbitrary: d) (auto simp: award_store_frame)

lemma awards_already_picked:
  "already_picked (foldl (\<lambda>c w. award_cache rn w c) c xs) = already_picked c \<union> set xs"
  by (induction xs arbitrary: c) (auto simp: award_cache_def)

lemma awards_cache_frame:
  "user_links (foldl (\<lambda>c w. award_cache rn w c) c xs) = user_links c"
  "always_pick (foldl (\<lambda>c w. award_cache rn w c) c xs) = always_pick c"
  by (induction xs arbitrary: c) (auto simp: award_cache_def)

lemma awards_cache_raffles:
  "map_of (raffles (foldl (\<lambda>c w. award_cache rn w c) c xs)) k =
     (if k = rn then map_option (\<lambda>l. l @ xs) (map_of (raffles c) rn) else map_of (raffles c) k)"
  by (induction xs arbitrary: c) (auto simp: award_cache_raffles option.map_comp comp_def option.map_ident)

lemma awards_store_frame:
  "t_raffles (foldl (\<lambda>d w. award_store rn now w d) d xs) = t_raffles d"
  "t_always_pick (foldl (\<lambda>d w. award_store rn now w d) d xs) = t_always_pick d"
  "t_archive_schedule (foldl (\<lambda>d w. award_store rn now w d) d xs) = t_archive_schedule d"
  "t_blacklist (foldl (\<lambda>d w. award_store rn now w d) d xs) = t_blacklist d"
  by (induction xs arbitrary: d) (auto simp: award_store_frame)

lemma awards_wins:
  "stat_wins u (foldl (\<lambda>d w. award_store rn now w d) d xs) = stat_wins u d + int (count_list xs u)"
  by (induction xs arbitrary: d) (auto simp: award_store_wins)

lemma awards_keys:
  "fst ` set (t_users (foldl (\<lambda>d w. award_store rn now w d) d xs)) = fst ` set (t_users d) \<union> set xs"
  "fst ` set (t_stats (foldl (\<lambda>d w. award_store rn now w d) d xs)) = fst ` set (t_stats d) \<union> set xs"
  by (induction xs arbitrary: d) (auto simp: award_store_keys)

lemma awards_winner_rows:
  "\<exists>new. t_raffle_winners (foldl (\<lambda>d w. award_store rn now w d) d xs) = t_raffle_winners d @ new \<and>
         fst ` set new \<subseteq> {rn} \<times> set xs \<and>
         (\<forall>k \<in> fst ` set new. map_of (t_raffle_winners d) k = None) \<and>
         distinct (map fst new)"
proof (induction xs arbitrary: d)
  case Nil
  then show ?case by simp
next
  case (Cons w xs)
  let ?d1 = "award_store rn now w d"
  obtain new where n: "t_raffle_winners (foldl (\<lambda>d w. award_store rn now w d) ?d1 xs)
                         = t_raffle_winners ?d1 @ new"
    and s: "fst ` set new \<subseteq> {rn} \<times> set xs"
    and f: "\<forall>k \<in> fst ` set new. map_of (t_raffle_winners ?d1) k = None"
    and di: "distinct (map fst new)"
    using Cons.IH[of ?d1] by blast
  show ?case
  proof (cases "map_of (t_raffle_winners d) (rn, w) = None")
    case True
    have w1: "t_raffle_winners ?d1 = t_raffle_winners d @ [((rn, w), now)]"
      using True by (simp add: award_store_frame)
    have nw: "(rn, w) \<notin> fst ` set new"
    proof
      assume "(rn, w) \<in> fst ` set new"
      then have "map_of (t_raffle_winners ?d1) (rn, w) = None" using f by auto
      then show False by (simp add: w1 map_add_def map_of_append split: option.splits)
    qed
    have old: "map_of (t_raffle_winners d) k = None" if "k \<in> fst ` set new" for k
    proof -
      have "map_of (t_raffle_winners ?d1) k = None" using f that by auto
      then show ?thesis by (simp add: w1 map_of_append map_add_def split: option.splits if_splits)
    qed
    let ?new = "((rn, w), now) # new"
    have "t_raffle_winners (foldl (\<lambda>d w. award_store rn now w d) d (w # xs))
            = t_raffle_winners d @ ?new" by (simp add: n w1)
    moreover have "fst ` set ?new \<subseteq> {rn} \<times> set (w # xs)" using s by auto
    moreover have "\<forall>k \<in> fst ` set ?new. map_of (t_raffle_winners d) k = None"
      using True old by auto
    moreover have "distinct (map fst ?new)" using di nw by (simp add: image_iff) 
    ultimately show ?thesis by blast
  next
    case False
    have w1: "t_raffle_winners ?d1 = t_raffle_winners d" using False by (simp add: award_store_frame)
    have "t_raffle_winners (foldl (\<lambda>d w. award_store rn now w d) d (w # xs))
            = t_raffle_winners d @ new" by (simp add: n w1)
    moreover have "fst ` set new \<subseteq> {rn} \<times> set (w # xs)" using s by auto
    ultimately show ?thesis using f di w1 by auto
  qed
qed

lemma awards_winner_recorded:
  "u \<in> set xs \<Longrightarrow>
     map_of (t_raffle_winners (foldl (\<lambda>d w. award_store rn now w d) d xs)) (rn, u) \<noteq> None"
proof (induction xs arbitrary: d)
  case Nil
  then show ?case by simp
next
  case (Cons w xs)
  let ?d1 = "award_store rn now w d"
  show ?case
  proof (cases "u \<in> set xs")
    case True
    then show ?thesis using Cons.IH[of ?d1] by simp
  next
    case False
    then have uw: "u = w" using Cons.prems by simp
    have r1: "map_of (t_raffle_winners ?d1) (rn, w) \<noteq> None"
      by (auto simp: award_store_frame map_of_append map_add_def split: option.splits)
    obtain new where "t_raffle_winners (foldl (\<lambda>d w. award_store rn now w d) ?d1 xs)
                        = t_raffle_winners ?d1 @ new"
      using awards_winner_rows[of rn now ?d1 xs] by blast
    then show ?thesis using r1 uw
      by (auto simp: map_of_append map_add_def split: option.splits)
  qed
qed

lemma awarded_take: "awarded cx ws = take (Suc (length (takeWhile (add_roles_ok cx) ws))) ws"
  by (induction ws) auto

lemma awarded_all: "list_all (add_roles_ok cx) ws \<Longrightarrow> awarded cx ws = ws"
  by (induction ws) auto

lemma pick_closed:
  "pick cx rs ss rn number now (c, d) =
     (if \<not> administrator cx then (Inl MissingPermissions, (c, d))
      else if select_winners cx rs number (c, d) = [] then (Inl NoEligibleUsers, (c, d))
      else if \<not> role_ready cx
      then (Inl Forbidden, (c\<lparr>raffles := map_default rn [] (\<lambda>l. l) (raffles c)\<rparr>,
                            db_create_raffle rn now d))
      else (if list_all (add_roles_ok cx) (shuffle ss (select_winners cx rs number (c, d)))
            then Inr (shuffle ss (select_winners cx rs number (c, d))) else Inl Forbidden,
            (foldl (\<lambda>c w. award_cache rn w c)
               (c\<lparr>raffles := map_default rn [] (\<lambda>l. l) (raffles c)\<rparr>)
               (awarded cx (shuffle ss (select_winners cx rs number (c, d)))),
             foldl (\<lambda>d w. award_store rn now w d) (db_create_raffle rn now d)
               (awarded cx (shuffle ss (select_winners cx rs number (c, d)))))))"
proof -
  have c1: "map_of (raffles (c\<lparr>raffles := map_default rn [] (\<lambda>l. l) (raffles c)\<rparr>)) rn \<noteq> None"
    by (simp add: map_of_map_default split: option.splits)
  have d1: "map_of (t_raffles (db_create_raffle rn now d)) rn \<noteq> None"
    by (auto simp: db_create_raffle_def map_of_map_default split: option.splits)
  show ?thesis
    by (simp add: pick_def Let_def award_winners_closed[OF c1 d1])
qed

subsection \<open>Wins and winner rows\<close>

lemma award_store_rows:
  "length (winner_rows u (award_store rn now w d)) =
     length (winner_rows u d) +
       (if u = w \<and> map_of (t_raffle_winners d) (rn, w) = None then 1 else 0)"
  by (simp add: winner_rows_def award_store_frame)

lemma awards_rows_le:
  "length (winner_rows u (foldl (\<lambda>d w. award_store rn now w d) d xs))
     \<le> length (winner_rows u d) + count_list xs u"
proof (induction xs arbitrary: d)
  case Nil
  then show ?case by simp
next
  case (Cons w xs)
  have "length (winner_rows u (award_store rn now w d))
          \<le> length (winner_rows u d) + (if u = w then 1 else 0)"
    by (simp add: award_store_rows)
  then show ?case using Cons.IH[of "award_store rn now w d"]
    by (cases "w = u") auto
qed

lemma awards_rows_eq:
  assumes "distinct xs" and "\<forall>w \<in> set xs. map_of (t_raffle_winners d) (rn, w) = None"
  shows "length (winner_rows u (foldl (\<lambda>d w. award_store rn now w d) d xs))
           = length (winner_rows u d) + count_list xs u"
  using assms
proof (induction xs arbitrary: d)
  case Nil
  then show ?case by simp
next
  case (Cons w xs)
  let ?d1 = "award_store rn now w d"
  have fresh: "\<forall>w' \<in> set xs. map_of (t_raffle_winners ?d1) (rn, w') = None"
    using Cons.prems by (auto simp: award_store_frame map_of_append map_add_def)
  have "distinct xs" using Cons.prems by simp
  from Cons.IH[OF this fresh] show ?case using Cons.prems
    by (simp add: award_store_rows)
qed

lemma distinct_select_winners:
  assumes "cache_keys_distinct (fst st)"
  shows "distinct (select_winners cx rs number st)"
proof -
  obtain c d where st: "st = (c, d)" by (cases st)
  have dp: "distinct (priority_winners cx st)"
    using assms by (simp add: st priority_winners_def cache_keys_distinct_def)
  have de: "distinct (eligible cx st)"
    using assms by (simp add: st eligible_def cache_keys_distinct_def)
  have dr: "distinct (remainder cx rs number st)"
    unfolding remainder_def using de by (rule distinct_sample)
  have "set (remainder cx rs number st) \<subseteq> set (eligible cx st)"
    unfolding remainder_def by (rule set_sample)
  moreover have "set (priority_winners cx st) \<inter> set (eligible cx st) = {}"
    by (auto simp: st priority_winners_def eligible_def)
  ultimately show ?thesis using dp dr by (auto simp: select_winners_eq)
qed

lemma distinct_awarded: "distinct ws \<Longrightarrow> distinct (awarded cx ws)"
  by (simp add: awarded_take)

lemma set_awarded: "set (awarded cx ws) \<subseteq> set ws"
  by (simp add: awarded_take set_take_subset)

lemma create_raffle_frame:
  "t_raffle_winners (db_create_raffle rn now d) = t_raffle_winners d"
  "t_stats (db_create_raffle rn now d) = t_stats d"
  "t_users (db_create_raffle rn now d) = t_users d"
  "t_picks_state (db_create_raffle rn now d) = t_picks_state d"
  by (simp_all add: db_create_raffle_def)

lemma obs_create_raffle:
  "winner_rows u (db_create_raffle rn now d) = winner_rows u d"
  "stat_wins u (db_create_raffle rn now d) = stat_wins u d"
  by (simp_all add: winner_rows_def stat_wins_def create_raffle_frame)

lemma pick_wins_cover:
  assumes "wins_cover_rows (snd st)"
  shows "wins_cover_rows (snd (snd (pick cx rs ss rn number now st)))"
proof -
  obtain c d where st: "st = (c, d)" by (cases st)
  have base: "int (length (winner_rows u d)) \<le> stat_wins u d" for u
    using assms by (simp add: st wins_cover_rows_def)
  have "int (length (winner_rows u (foldl (\<lambda>d w. award_store rn now w d)
            (db_create_raffle rn now d) xs)))
        \<le> stat_wins u (foldl (\<lambda>d w. award_store rn now w d) (db_create_raffle rn now d) xs)"
    for u xs
    using awards_rows_le[of u rn now "db_create_raffle rn now d" xs] base[of u]
    by (simp add: awards_wins obs_create_raffle)
  then show ?thesis using base
    by (simp add: st pick_closed wins_cover_rows_def obs_create_raffle)
qed

lemma pick_wins_match:
  assumes "wins_match_rows (snd st)" and "cache_keys_distinct (fst st)"
    and "fresh_win (Pick cx rs ss rn number now) st"
  shows "wins_match_rows (snd (snd (pick cx rs ss rn number now st)))"
proof -
  obtain c d where st: "st = (c, d)" by (cases st)
  let ?ws = "shuffle ss (select_winners cx rs number (c, d))"
  let ?d1 = "db_create_raffle rn now d"
  have base: "int (length (winner_rows u d)) = stat_wins u d" for u
    using assms(1) by (simp add: st wins_match_rows_def)
  have dist: "distinct (awarded cx ?ws)"
    using distinct_select_winners[of "(c, d)"] assms(2)
    by (simp add: st distinct_awarded distinct_shuffle)
  have fresh: "\<forall>w \<in> set (awarded cx ?ws). map_of (t_raffle_winners ?d1) (rn, w) = None"
    using assms(3) set_awarded[of cx ?ws]
    by (auto simp: st list_all_iff set_shuffle create_raffle_frame)
  have "int (length (winner_rows u (foldl (\<lambda>d w. award_store rn now w d) ?d1 (awarded cx ?ws))))
        = stat_wins u (foldl (\<lambda>d w. award_store rn now w d) ?d1 (awarded cx ?ws))" for u
    using awards_rows_eq[OF dist fresh, of u now] base[of u]
    by (simp add: awards_wins obs_create_raffle)
  then show ?thesis using base
    by (simp add: st pick_closed wins_match_rows_def obs_create_raffle)
qed

lemma upsert_user_obs:
  "db_upsert_user u link d = Inr d1 \<Longrightarrow>
     stat_wins v d1 = stat_wins v d \<and> stat_registrations v d1 = stat_registrations v d \<and>
     t_raffle_winners d1 = t_raffle_winners d \<and> t_raffles d1 = t_raffles d"
proof -
  assume "db_upsert_user u link d = Inr d1"
  then have d1: "d1 = d\<lparr>t_users := AList.update u link (t_users d),
                        t_stats := map_default u zero_stat (\<lambda>s. s) (t_stats d)\<rparr>"
    by (simp add: db_upsert_user_ok)
  have m: "map_of (t_stats d1) v =
             (if v = u \<and> map_of (t_stats d) u = None then Some zero_stat else map_of (t_stats d) v)"
    by (auto simp: d1 map_of_map_default split: option.splits)
  show ?thesis
    by (simp add: stat_wins_def stat_registrations_def m zero_stat_def) (simp add: d1)
qed


lemma register_closed:
  "register cx link (c, d) =
     (case link of
        None \<Rightarrow> (Inl MissingArgument, (c, d))
      | Some l \<Rightarrow>
         if l = [] then (Inl MissingArgument, (c, d))
         else if \<not> valid_link l then (Inl InvalidLink, (c, d))
         else if map_of (user_links c) (author cx) \<noteq> None then (Inl AlreadyRegistered, (c, d))
         else if is_blacklisted (author cx) d then (Inl Blacklisted, (c, d))
         else (Inr (),
               (c\<lparr>user_links := AList.update (author cx) l (user_links c),
                  user_stats := map_default (author cx) \<lparr>registrations = 1, wins = 0\<rparr>
                                  (\<lambda>s. s\<lparr>registrations := registrations s + 1\<rparr>) (user_stats c)\<rparr>,
                snd (db_update_stat (author cx) 1 0
                  (d\<lparr>t_users := AList.update (author cx) l (t_users d),
                     t_stats := map_default (author cx) zero_stat (\<lambda>s. s) (t_stats d)\<rparr>)))))"
  by (simp add: register_def db_upsert_user_ok db_update_stat_ok Let_def split: option.splits)

lemma register_store:
  "snd (snd (register cx link st)) = snd st \<or>
   (\<exists>l. snd (snd (register cx link st)) =
      snd (db_update_stat (author cx) 1 0
        ((snd st)\<lparr>t_users := AList.update (author cx) l (t_users (snd st)),
           t_stats := map_default (author cx) zero_stat (\<lambda>s. s) (t_stats (snd st))\<rparr>)))"
  by (cases st) (auto simp: register_closed split: option.splits)

lemma register_obs:
  "stat_wins v (snd (snd (register cx link st))) = stat_wins v (snd st)"
  "t_raffle_winners (snd (snd (register cx link st))) = t_raffle_winners (snd st)"
  "t_raffles (snd (snd (register cx link st))) = t_raffles (snd st)"
proof -
  let ?d' = "snd (snd (register cx link st))"
  have u: "stat_wins v (snd (db_update_stat a 1 0 d1)) = stat_wins v (snd st) \<and>
           t_raffle_winners (snd (db_update_stat a 1 0 d1)) = t_raffle_winners (snd st) \<and>
           t_raffles (snd (db_update_stat a 1 0 d1)) = t_raffles (snd st)"
    if "d1 = (snd st)\<lparr>t_users := AList.update a l (t_users (snd st)),
                        t_stats := map_default a zero_stat (\<lambda>s. s) (t_stats (snd st))\<rparr>"
    for a l d1
  proof -
    have "db_upsert_user a l (snd st) = Inr d1" by (simp add: that db_upsert_user_ok)
    from upsert_user_obs[OF this, of v] show ?thesis
      by (simp add: stat_wins_update update_stat_frame)
  qed
  from register_store[of cx link st] u
  show "stat_wins v ?d' = stat_wins v (snd st)"
    and "t_raffle_winners ?d' = t_raffle_winners (snd st)"
    and "t_raffles ?d' = t_raffles (snd st)"
    by metis+
qed

lemma winner_rows_filter_other:
  "winner_rows u (d\<lparr>t_raffle_winners := filter (\<lambda>((name, v), picked_at). v \<noteq> t) (t_raffle_winners d)\<rparr>)
     = (if u = t then [] else winner_rows u d)"
proof -
  have "filter (\<lambda>row. snd (fst row) = u) (filter (\<lambda>((name, v), picked_at). v \<noteq> t) xs)
          = (if u = t then [] else filter (\<lambda>row. snd (fst row) = u) xs)"
    for xs :: "((string \<times> uid) \<times> tstamp) list"
    by (induction xs) auto
  then show ?thesis by (simp add: winner_rows_def)
qed


lemma unregister_tx_obs:
  assumes "unregister_tx t d = Inr d1"
  shows "stat_wins u d1 = (if u = t then 0 else stat_wins u d)"
    and "winner_rows u d1 = (if u = t then [] else winner_rows u d)"
    and "t_raffles d1 = t_raffles d"
proof -
  have d1: "d1 = d\<lparr>t_users := AList.delete t (t_users d),
                  t_stats := AList.delete t (t_stats d),
                  t_always_pick := removeAll t (t_always_pick d),
                  t_raffle_winners := filter (\<lambda>((name, u), picked_at). u \<noteq> t)
                                        (t_raffle_winners d),
                  t_picks_state := t_picks_state d - {t}\<rparr>"
    using assms by (auto simp: unregister_tx_def split: if_splits)
  show "stat_wins u d1 = (if u = t then 0 else stat_wins u d)"
    by (simp add: d1 stat_wins_def delete_conv')
  have "winner_rows u d1 =
          winner_rows u (d\<lparr>t_raffle_winners := filter (\<lambda>((name, v), picked_at). v \<noteq> t)
                                                  (t_raffle_winners d)\<rparr>)"
    by (simp add: d1 winner_rows_def)
  then show "winner_rows u d1 = (if u = t then [] else winner_rows u d)"
    by (simp add: winner_rows_filter_other)
  show "t_raffles d1 = t_raffles d" by (simp add: d1)
qed


lemma unregister_store:
  "snd (snd (unregister cx member st)) = snd st \<or>
   unregister_tx (case member of None \<Rightarrow> author cx | Some m \<Rightarrow> m) (snd st)
     = Inr (snd (snd (unregister cx member st)))"
  by (cases st) (auto simp: unregister_def Let_def split: sum.splits)


lemma reset_db_store:
  "snd (snd (reset_db cx st)) = snd st \<or> snd (snd (reset_db cx st)) = empty_store"
  by (auto simp: reset_db_def reset_db_tx_def split: sum.splits)


lemma reset_raffles_store:
  "snd (snd (reset_raffles cx st)) = snd st \<or>
   snd (snd (reset_raffles cx st)) = (snd st)\<lparr>t_raffles := [], t_stats := [], t_raffle_winners := [],
                  t_picks_state := {}, t_archive_schedule := []\<rparr>"
  by (auto simp: reset_raffles_def reset_raffles_tx_def split: sum.splits)


lemma tick_store_obs:
  "t_stats (snd (snd (archive_watcher fails now st))) = t_stats (snd st)"
  "t_raffle_winners (snd (snd (archive_watcher fails now st))) = t_raffle_winners (snd st)"
  "t_users (snd (snd (archive_watcher fails now st))) = t_users (snd st)"
  by (cases st; simp add: archive_watcher_closed)+


lemma load_store: "snd (load_state_from_db st) = snd st"
  by (cases st) (simp add: load_state_from_db_def)


lemma exec_wins_cover:
  assumes "wins_cover_rows (snd st)"
  shows "wins_cover_rows (snd (exec cmd st))"
proof (cases cmd)
  case (Register cx link)
  then show ?thesis using assms
    by (simp add: wins_cover_rows_def register_obs winner_rows_def)
next
  case (Unregister cx member)
  show ?thesis
    using unregister_store[of cx member st] assms
    by (auto simp: Unregister wins_cover_rows_def unregister_tx_obs)
next
  case (Pick cx rs ss rn number now)
  then show ?thesis using pick_wins_cover[OF assms] by simp
next
  case (ResetDb cx)
  show ?thesis using reset_db_store[of cx st] assms
    by (auto simp: ResetDb wins_cover_rows_def empty_store_def winner_rows_def stat_wins_def)
next
  case (ResetRaffles cx)
  show ?thesis using reset_raffles_store[of cx st] assms
    by (auto simp: ResetRaffles wins_cover_rows_def winner_rows_def stat_wins_def)
next
  case (ArchiveTick fails now)
  then show ?thesis using assms
    by (simp add: wins_cover_rows_def winner_rows_def stat_wins_def tick_store_obs)
qed (use assms in \<open>auto simp: wins_cover_rows_def winner_rows_def stat_wins_def blacklist_def
       unblacklist_def always_add_def always_remove_def reset_picks_def profile_def
       schedule_archive_in_5_def load_store db_set_always_def db_reset_picks_def
       db_schedule_archive_def\<close>)

lemma exec_wins_match:
  assumes "wins_match_rows (snd st)" and "cache_keys_distinct (fst st)" and "fresh_win cmd st"
  shows "wins_match_rows (snd (exec cmd st))"
proof (cases cmd)
  case (Register cx link)
  then show ?thesis using assms(1)
    by (simp add: wins_match_rows_def register_obs winner_rows_def)
next
  case (Unregister cx member)
  show ?thesis
    using unregister_store[of cx member st] assms(1)
    by (auto simp: Unregister wins_match_rows_def unregister_tx_obs)
next
  case (Pick cx rs ss rn number now)
  then show ?thesis using pick_wins_match[OF assms(1,2)] assms(3) by simp
next
  case (ResetDb cx)
  show ?thesis using reset_db_store[of cx st] assms(1)
    by (auto simp: ResetDb wins_match_rows_def empty_store_def winner_rows_def stat_wins_def)
next
  case (ResetRaffles cx)
  show ?thesis using reset_raffles_store[of cx st] assms(1)
    by (auto simp: ResetRaffles wins_match_rows_def winner_rows_def stat_wins_def)
next
  case (ArchiveTick fails now)
  then show ?thesis using assms(1)
    by (simp add: wins_match_rows_def winner_rows_def stat_wins_def tick_store_obs)
qed (use assms(1) in \<open>auto simp: wins_match_rows_def winner_rows_def stat_wins_def blacklist_def
       unblacklist_def always_add_def always_remove_def reset_picks_def profile_def
       schedule_archive_in_5_def load_store db_set_always_def db_reset_picks_def
       db_schedule_archive_def\<close>)

lemma distinct_load_links:
  "distinct (map fst al) \<Longrightarrow>
     distinct (map fst (foldl (\<lambda>al (u, link). AList.update u link al) al rows))"
  by (induction rows arbitrary: al) (auto simp: distinct_update)

lemma distinct_load_always: "distinct xs \<Longrightarrow> distinct (foldl (\<lambda>xs u. set_add u xs) xs us)"
  by (induction us arbitrary: xs) (auto simp: set_add_def)

lemma load_cache_distinct:
  "cache_keys_distinct c \<Longrightarrow> cache_keys_distinct (fst (load_state_from_db (c, d)))"
  by (simp add: load_state_from_db_def cache_keys_distinct_def distinct_load_links
      distinct_load_always)

lemma pick_cache_frame:
  "user_links (fst (snd (pick cx rs ss rn number now st))) = user_links (fst st)"
  "always_pick (fst (snd (pick cx rs ss rn number now st))) = always_pick (fst st)"
  by (cases st; simp add: pick_closed awards_cache_frame)+

lemma exec_cache_distinct:
  assumes "cache_keys_distinct (fst st)"
  shows "cache_keys_distinct (fst (exec cmd st))"
proof (cases cmd)
  case (Register cx link)
  obtain c d where st: "st = (c, d)" by (cases st)
  show ?thesis using assms
    by (auto simp: Register st register_closed cache_keys_distinct_def distinct_update
        split: option.splits)
next
  case (Unregister cx member)
  obtain c d where st: "st = (c, d)" by (cases st)
  show ?thesis using assms
    by (auto simp: Unregister st unregister_def Let_def cache_keys_distinct_def distinct_delete
        distinct_removeAll split: sum.splits)
next
  case (Pick cx rs ss rn number now)
  then show ?thesis using assms by (simp add: cache_keys_distinct_def pick_cache_frame)
next
  case (ResetDb cx)
  show ?thesis using assms
    by (auto simp: ResetDb reset_db_def cache_keys_distinct_def empty_cache_def split: sum.splits)
next
  case (ResetRaffles cx)
  show ?thesis using assms
    by (auto simp: ResetRaffles reset_raffles_def cache_keys_distinct_def split: sum.splits)
next
  case (ArchiveTick fails now)
  obtain c d where st: "st = (c, d)" by (cases st)
  show ?thesis using assms
    by (simp add: ArchiveTick st archive_watcher_closed cache_keys_distinct_def)
next
  case OnReady
  obtain c d where st: "st = (c, d)" by (cases st)
  show ?thesis using assms load_cache_distinct[of c d] by (simp add: OnReady st)
next
  case Restart
  have "cache_keys_distinct empty_cache" by (simp add: cache_keys_distinct_def empty_cache_def)
  then show ?thesis using load_cache_distinct[of empty_cache "snd st"] by (simp add: Restart)
qed (use assms in \<open>auto simp: cache_keys_distinct_def blacklist_def unblacklist_def
       always_add_def always_remove_def reset_picks_def profile_def schedule_archive_in_5_def
       set_add_def distinct_removeAll\<close>)

lemma run_wins_cover: "wins_cover_rows (snd st) \<Longrightarrow> wins_cover_rows (snd (run cmds st))"
  by (induction cmds arbitrary: st) (auto simp: exec_wins_cover)

lemma run_wins_match:
  "wins_match_rows (snd st) \<Longrightarrow> cache_keys_distinct (fst st) \<Longrightarrow> fresh_wins cmds st \<Longrightarrow>
     wins_match_rows (snd (run cmds st))"
  by (induction cmds arbitrary: st) (auto simp: exec_wins_match exec_cache_distinct)

subsection \<open>The winner rows under every command\<close>

lemma winners_backedI:
  assumes "distinct (map fst (t_raffle_winners d))"
    and "\<And>name u t. ((name, u), t) \<in> set (t_raffle_winners d) \<Longrightarrow>
           map_of (t_users d) u \<noteq> None \<and> map_of (t_stats d) u \<noteq> None \<and>
           map_of (t_raffles d) name \<noteq> None"
  shows "winners_backed d"
  using assms by (auto simp: winners_backed_def list_all_iff)

lemma winners_backedD:
  assumes "winners_backed d"
  shows "distinct (map fst (t_raffle_winners d))"
    and "((name, u), t) \<in> set (t_raffle_winners d) \<Longrightarrow>
           map_of (t_users d) u \<noteq> None \<and> map_of (t_stats d) u \<noteq> None \<and>
           map_of (t_raffles d) name \<noteq> None"
  using assms by (auto simp: winners_backed_def list_all_iff)

lemma winners_backed_mono:
  assumes "winners_backed d"
    and "t_raffle_winners d' = t_raffle_winners d"
    and "\<And>u. map_of (t_users d) u \<noteq> None \<Longrightarrow> map_of (t_users d') u \<noteq> None"
    and "\<And>u. map_of (t_stats d) u \<noteq> None \<Longrightarrow> map_of (t_stats d') u \<noteq> None"
    and "\<And>n. map_of (t_raffles d) n \<noteq> None \<Longrightarrow> map_of (t_raffles d') n \<noteq> None"
  shows "winners_backed d'"
proof (rule winners_backedI)
  show "distinct (map fst (t_raffle_winners d'))"
    using winners_backedD(1)[OF assms(1)] by (simp add: assms(2))
next
  fix name u t
  assume "((name, u), t) \<in> set (t_raffle_winners d')"
  then have "((name, u), t) \<in> set (t_raffle_winners d)" by (simp add: assms(2))
  from winners_backedD(2)[OF assms(1) this] show
    "map_of (t_users d') u \<noteq> None \<and> map_of (t_stats d') u \<noteq> None \<and>
     map_of (t_raffles d') name \<noteq> None"
    using assms(3,4,5) by blast
qed

lemma key_iff: "map_of xs k \<noteq> None \<longleftrightarrow> k \<in> fst ` set xs"
  by (simp add: map_of_eq_None_iff)

lemma award_store_backed:
  assumes "winners_backed d" and "map_of (t_raffles d) rn \<noteq> None"
  shows "winners_backed (award_store rn now w d)"
proof (rule winners_backedI)
  show "distinct (map fst (t_raffle_winners (award_store rn now w d)))"
    using winners_backedD(1)[OF assms(1)]
    by (auto simp: award_store_frame map_of_eq_None_iff)
next
  fix name u t
  assume a: "((name, u), t) \<in> set (t_raffle_winners (award_store rn now w d))"
  have k: "fst ` set (t_users d) \<subseteq> fst ` set (t_users (award_store rn now w d))"
    "fst ` set (t_stats d) \<subseteq> fst ` set (t_stats (award_store rn now w d))"
    "w \<in> fst ` set (t_users (award_store rn now w d))"
    "w \<in> fst ` set (t_stats (award_store rn now w d))"
    by (auto simp: award_store_keys)
  show "map_of (t_users (award_store rn now w d)) u \<noteq> None \<and>
        map_of (t_stats (award_store rn now w d)) u \<noteq> None \<and>
        map_of (t_raffles (award_store rn now w d)) name \<noteq> None"
  proof (cases "((name, u), t) \<in> set (t_raffle_winners d)")
    case True
    from winners_backedD(2)[OF assms(1) True] show ?thesis
      using k unfolding key_iff by (auto simp: award_store_frame)
  next
    case False
    then have "name = rn \<and> u = w" using a by (auto simp: award_store_frame split: if_splits)
    then show ?thesis using k assms(2) unfolding key_iff by (auto simp: award_store_frame)
  qed
qed

lemma awards_backed:
  assumes "winners_backed d" and "map_of (t_raffles d) rn \<noteq> None"
  shows "winners_backed (foldl (\<lambda>d w. award_store rn now w d) d xs)"
  using assms
proof (induction xs arbitrary: d)
  case Nil
  then show ?case by simp
next
  case (Cons w xs)
  have "map_of (t_raffles (award_store rn now w d)) rn \<noteq> None"
    using Cons.prems(2) by (simp add: award_store_frame)
  from Cons.IH[OF award_store_backed[OF Cons.prems] this] show ?case by simp
qed

lemma create_raffle_backed:
  assumes "winners_backed d"
  shows "winners_backed (db_create_raffle rn now d)"
    and "map_of (t_raffles (db_create_raffle rn now d)) rn \<noteq> None"
proof -
  show "winners_backed (db_create_raffle rn now d)"
    by (rule winners_backed_mono[OF assms])
       (auto simp: db_create_raffle_def map_of_map_default split: option.splits)
  show "map_of (t_raffles (db_create_raffle rn now d)) rn \<noteq> None"
    by (auto simp: db_create_raffle_def map_of_map_default split: option.splits)
qed

lemma pick_winner_rows:
  assumes "winners_backed (snd st)"
  shows "winners_backed (snd (snd (pick cx rs ss rn number now st))) \<and>
         (\<exists>new. t_raffle_winners (snd (snd (pick cx rs ss rn number now st)))
                  = t_raffle_winners (snd st) @ new)"
proof -
  obtain c d where st: "st = (c, d)" by (cases st)
  have w: "winners_backed d" using assms by (simp add: st)
  have a: "winners_backed (foldl (\<lambda>d w. award_store rn now w d) (db_create_raffle rn now d) xs)"
    for xs
    using awards_backed[OF create_raffle_backed[OF w]] by blast
  have b: "\<exists>new. t_raffle_winners
                   (foldl (\<lambda>d w. award_store rn now w d) (db_create_raffle rn now d) xs)
                 = t_raffle_winners d @ new" for xs
    using awards_winner_rows[of rn now "db_create_raffle rn now d" xs]
    by (auto simp: create_raffle_frame)
  show ?thesis
    using w a b create_raffle_backed(1)[OF w, of rn now]
    by (simp add: st pick_closed create_raffle_frame)
qed

lemma register_backed:
  assumes "winners_backed (snd st)"
  shows "winners_backed (snd (snd (register cx link st)))"
proof -
  let ?d = "snd st"
  have k: "winners_backed (snd (db_update_stat a 1 0
             (?d\<lparr>t_users := AList.update a l (t_users ?d),
                 t_stats := map_default a zero_stat (\<lambda>s. s) (t_stats ?d)\<rparr>)))" for a l
    by (rule winners_backed_mono[OF assms])
       (auto simp: db_update_stat_ok map_of_map_default update_conv' split: option.splits)
  show ?thesis using register_store[of cx link st] assms k by auto
qed

lemma unregister_tx_backed:
  assumes "winners_backed d" and "unregister_tx t d = Inr d1"
  shows "winners_backed d1" and "t_raffle_winners d1 = t_raffle_winners d"
proof -
  have miss: "map_of (t_users d) t = None \<or> map_of (t_stats d) t = None"
    using assms(2) by (auto simp: unregister_tx_def split: if_splits)
  have d1: "d1 = d\<lparr>t_users := AList.delete t (t_users d),
                  t_stats := AList.delete t (t_stats d),
                  t_always_pick := removeAll t (t_always_pick d),
                  t_raffle_winners := filter (\<lambda>((name, u), picked_at). u \<noteq> t)
                                        (t_raffle_winners d),
                  t_picks_state := t_picks_state d - {t}\<rparr>"
    using assms(2) by (auto simp: unregister_tx_def split: if_splits)
  have other: "u \<noteq> t" if "((name, u), p) \<in> set (t_raffle_winners d)" for name u p
    using winners_backedD(2)[OF assms(1) that] miss by auto
  have keep: "filter (\<lambda>((name, u), picked_at). u \<noteq> t) (t_raffle_winners d) = t_raffle_winners d"
    using other by (auto simp: filter_id_conv)
  show w: "t_raffle_winners d1 = t_raffle_winners d" by (simp add: d1 keep)
  show "winners_backed d1"
  proof (rule winners_backedI)
    show "distinct (map fst (t_raffle_winners d1))"
      using winners_backedD(1)[OF assms(1)] by (simp add: w)
  next
    fix name u p
    assume "((name, u), p) \<in> set (t_raffle_winners d1)"
    then have m: "((name, u), p) \<in> set (t_raffle_winners d)" by (simp add: w)
    from winners_backedD(2)[OF assms(1) m] other[OF m]
    show "map_of (t_users d1) u \<noteq> None \<and> map_of (t_stats d1) u \<noteq> None \<and>
          map_of (t_raffles d1) name \<noteq> None"
      by (simp add: d1 delete_conv')
  qed
qed

lemma unregister_backed:
  assumes "winners_backed (snd st)"
  shows "winners_backed (snd (snd (unregister cx member st))) \<and>
         t_raffle_winners (snd (snd (unregister cx member st))) = t_raffle_winners (snd st)"
  using unregister_store[of cx member st] unregister_tx_backed[OF assms] assms by auto

lemma reset_db_backed:
  assumes "winners_backed (snd st)"
  shows "winners_backed (snd (snd (reset_db cx st))) \<and>
         t_raffle_winners (snd (snd (reset_db cx st))) = t_raffle_winners (snd st)"
proof -
  have e: "winners_backed empty_store" by (simp add: winners_backed_def empty_store_def)
  have "t_raffle_winners (snd st) = []" if "reset_db_tx (snd st) = Inr d1" for d1
  proof (rule ccontr)
    assume "t_raffle_winners (snd st) \<noteq> []"
    then obtain name u p where m: "((name, u), p) \<in> set (t_raffle_winners (snd st))"
      by (cases "t_raffle_winners (snd st)") auto
    have "list_ex (\<lambda>((name, u), picked_at). map_of (t_raffles (snd st)) name \<noteq> None)
            (t_raffle_winners (snd st))"
      unfolding list_ex_iff
      by (rule bexI[OF _ m]) (use winners_backedD(2)[OF assms m] in simp)
    then show False using that by (simp add: reset_db_tx_def split: if_splits)
  qed
  then show ?thesis using assms e
    by (auto simp: reset_db_def reset_db_tx_def empty_store_def split: sum.splits if_splits)
qed

lemma reset_raffles_backed:
  assumes "winners_backed (snd st)"
  shows "winners_backed (snd (snd (reset_raffles cx st))) \<and>
         t_raffle_winners (snd (snd (reset_raffles cx st))) = t_raffle_winners (snd st)"
proof -
  have "t_raffle_winners (snd st) = []" if "reset_raffles_tx (snd st) = Inr d1" for d1
  proof (rule ccontr)
    assume "t_raffle_winners (snd st) \<noteq> []"
    then obtain name u p where m: "((name, u), p) \<in> set (t_raffle_winners (snd st))"
      by (cases "t_raffle_winners (snd st)") auto
    have "list_ex (\<lambda>((name, u), picked_at). map_of (t_raffles (snd st)) name \<noteq> None)
            (t_raffle_winners (snd st))"
      unfolding list_ex_iff
      by (rule bexI[OF _ m]) (use winners_backedD(2)[OF assms m] in simp)
    then show False using that by (simp add: reset_raffles_tx_def split: if_splits)
  qed
  then show ?thesis using assms
    by (auto simp: reset_raffles_def reset_raffles_tx_def winners_backed_def
        split: sum.splits if_splits)
qed

lemma tick_backed:
  assumes "winners_backed (snd st)"
  shows "winners_backed (snd (snd (archive_watcher fails now st)))"
proof -
  obtain c d where st: "st = (c, d)" by (cases st)
  show ?thesis unfolding st
    by (rule winners_backed_mono[OF assms[unfolded st]])
       (auto simp: archive_watcher_closed map_of_flag_raffles)
qed

lemma exec_winner_rows:
  assumes "winners_backed (snd st)"
  shows "winners_backed (snd (exec cmd st)) \<and>
         (\<exists>new. t_raffle_winners (snd (exec cmd st)) = t_raffle_winners (snd st) @ new)"
proof (cases cmd)
  case (Register cx link)
  then show ?thesis using register_backed[OF assms] by (simp add: register_obs)
next
  case (Unregister cx member)
  then show ?thesis using unregister_backed[OF assms] by simp
next
  case (Pick cx rs ss rn number now)
  then show ?thesis using pick_winner_rows[OF assms] by simp
next
  case (ResetDb cx)
  then show ?thesis using reset_db_backed[OF assms] by simp
next
  case (ResetRaffles cx)
  then show ?thesis using reset_raffles_backed[OF assms] by simp
next
  case (ArchiveTick fails now)
  then show ?thesis using tick_backed[OF assms] by (simp add: tick_store_obs)
qed (use assms in \<open>auto simp: winners_backed_def blacklist_def
       unblacklist_def always_add_def always_remove_def reset_picks_def profile_def
       schedule_archive_in_5_def load_store db_set_always_def db_reset_picks_def
       db_schedule_archive_def\<close>)

lemma run_winner_rows:
  assumes "winners_backed (snd st)"
  shows "winners_backed (snd (run cmds st)) \<and>
         (\<exists>new. t_raffle_winners (snd (run cmds st)) = t_raffle_winners (snd st) @ new)"
  using assms
proof (induction cmds arbitrary: st)
  case Nil
  then show ?case by simp
next
  case (Cons cmd cmds)
  from exec_winner_rows[OF Cons.prems, of cmd] obtain new1 where
    b: "winners_backed (snd (exec cmd st))"
    and n1: "t_raffle_winners (snd (exec cmd st)) = t_raffle_winners (snd st) @ new1" by blast
  from Cons.IH[OF b] obtain new2 where
    b2: "winners_backed (snd (run cmds (exec cmd st)))"
    and n2: "t_raffle_winners (snd (run cmds (exec cmd st)))
               = t_raffle_winners (snd (exec cmd st)) @ new2" by blast
  show ?case using b2 n1 n2 by simp
qed

section \<open>The size and content of the winner list\<close>

text \<open>
  Claim C1, as the code has it. When \<open>pick\<close> returns a winner list, the list is a
  permutation of the priority winners followed by the random remainder; it contains every
  priority winner; the remainder is drawn from the eligible users without replacement and
  has \<open>min (max 0 (N - |priority|)) |pool|\<close> elements. The list has
  \<open>min N (|priority| + |pool|)\<close> elements when there are at most \<open>N\<close> priority
  winners; in general it has at most \<open>max N |priority|\<close> elements, since every
  priority winner is taken whatever \<open>N\<close> is.
\<close>

theorem pick_winner_count:
  assumes "fst (pick cx rs ss raffle_name number now st) = Inr ws"
  shows "set (priority_winners cx st) \<subseteq> set ws \<and>
         mset ws = mset (priority_winners cx st) + mset (remainder cx rs number st) \<and>
         mset (remainder cx rs number st) \<subseteq># mset (eligible cx st) \<and>
         length (remainder cx rs number st) =
           min (nat (number - int (length (priority_winners cx st)))) (length (eligible cx st)) \<and>
         int (length ws) \<le> max number (int (length (priority_winners cx st))) \<and>
         (int (length (priority_winners cx st)) \<le> number \<longrightarrow>
            int (length ws) =
              min number (int (length (priority_winners cx st)) + int (length (eligible cx st))))"
proof -
  let ?pw = "priority_winners cx st" and ?el = "eligible cx st"
  let ?rest = "remainder cx rs number st"
  have ws: "ws = shuffle ss (?pw @ ?rest)"
    using pick_Inr(1)[OF assms] by (simp add: select_winners_eq)
  have m: "mset ws = mset ?pw + mset ?rest" by (simp add: ws mset_shuffle)
  have s: "set ?pw \<subseteq> set ws" by (simp add: ws set_shuffle)
  have sub: "mset ?rest \<subseteq># mset ?el" unfolding remainder_def by (rule mset_sample_subset)
  have lr: "length ?rest = min (nat (number - int (length ?pw))) (length ?el)"
    by (rule length_remainder)
  have lw: "length ws = length ?pw + length ?rest" by (simp add: ws length_shuffle)
  have b1: "int (length ws) \<le> max number (int (length ?pw))" using lw lr by linarith
  have b2: "int (length ?pw) \<le> number \<Longrightarrow>
      int (length ws) = min number (int (length ?pw) + int (length ?el))"
    using lw lr by linarith
  show ?thesis using m s sub lr b1 b2 by blast
qed

text \<open>
  The scenario of the specification: one priority winner, three eligible users, two
  winners requested.
\<close>

theorem pick_winner_count_witness:
  "fst (pick ex_ctx [1] [1] ''SpaceA'' 2 100 ex_state) = Inr [3, 1] \<and>
   priority_winners ex_ctx ex_state = [1] \<and>
   eligible ex_ctx ex_state = [2, 3, 4] \<and>
   set (priority_winners ex_ctx ex_state) \<subseteq> set [3, 1] \<and>
   length (remainder ex_ctx [1] 2 ex_state) = 1 \<and>
   int (length [3, 1 :: uid]) =
     min 2 (int (length (priority_winners ex_ctx ex_state)) +
            int (length (eligible ex_ctx ex_state)))"
proof -
  have h: "fst (pick ex_ctx [1] [1] ''SpaceA'' 2 100 ex_state) = Inr [3, 1]" by code_simp
  have p: "priority_winners ex_ctx ex_state = [1]" by code_simp
  have e: "eligible ex_ctx ex_state = [2, 3, 4]" by code_simp
  show ?thesis using pick_winner_count[OF h] h p e by simp
qed

text \<open>
  Claim C1 as stated fails: with two priority winners and one winner requested, the draw
  returns two winners, which is neither \<open>min N (|priority| + |pool|)\<close> nor at most
  \<open>N\<close>.
\<close>

theorem pick_exceeds_requested_count:
  "fst (pick ex_ctx [] [] ''SpaceA'' 1 100 ex_state2) = Inr [1, 2] \<and>
   priority_winners ex_ctx ex_state2 = [1, 2] \<and>
   eligible ex_ctx ex_state2 = [3, 4] \<and>
   int (length [1, 2 :: uid]) \<noteq>
     min 1 (int (length (priority_winners ex_ctx ex_state2)) +
            int (length (eligible ex_ctx ex_state2))) \<and>
   \<not> int (length [1, 2 :: uid]) \<le> 1"
proof -
  have h: "fst (pick ex_ctx [] [] ''SpaceA'' 1 100 ex_state2) = Inr [1, 2]" by code_simp
  have p: "priority_winners ex_ctx ex_state2 = [1, 2]" by code_simp
  have e: "eligible ex_ctx ex_state2 = [3, 4]" by code_simp
  show ?thesis using h p e by simp
qed

section \<open>A draw without winners\<close>

text \<open>
  Claim C2. When the computed winner list is empty, \<open>pick\<close> replies that no user is
  eligible (or, for a caller who is not an administrator, that the permission is missing)
  and returns the state it was given: the five containers and the eight tables are the
  same, so no raffle row and no winner row is written.
\<close>

theorem pick_without_winners_changes_nothing:
  assumes "select_winners cx rs number st = []"
  shows "pick cx rs ss raffle_name number now st =
           (Inl (if administrator cx then NoEligibleUsers else MissingPermissions), st)"
  using assms by (simp add: pick_def)

theorem pick_without_winners_changes_nothing_witness:
  "select_winners ex_ctx [0] 3 ex_state_barred = [] \<and>
   pick ex_ctx [0] [] ''SpaceA'' 3 100 ex_state_barred = (Inl NoEligibleUsers, ex_state_barred)"
proof -
  have h: "select_winners ex_ctx [0] 3 ex_state_barred = []" by code_simp
  have a: "administrator ex_ctx" by (simp add: ex_ctx_def)
  show ?thesis using pick_without_winners_changes_nothing[OF h, of "[]" "''SpaceA''" 100] h a
    by simp
qed

section \<open>The blacklist\<close>

text \<open>
  Claim C9. A user who is on the blacklist when the draw runs is in neither of the two
  candidate lists, also when the user is on the always-pick list, and so is not in the
  shuffled winner list that the loop processes and that \<open>pick\<close> returns.
\<close>

theorem blacklisted_never_wins:
  assumes "is_blacklisted u (snd st)"
  shows "u \<notin> set (priority_winners cx st) \<and> u \<notin> set (eligible cx st) \<and>
         u \<notin> set (shuffle ss (select_winners cx rs number st)) \<and>
         (\<forall>ws. fst (pick cx rs ss raffle_name number now st) = Inr ws \<longrightarrow> u \<notin> set ws)"
proof -
  have b: "u \<in> t_blacklist (snd st)" using assms by (simp add: is_blacklisted_def)
  have p: "u \<notin> set (priority_winners cx st)" using b not_blacklisted_priority by blast
  have e: "u \<notin> set (eligible cx st)" using b not_blacklisted_eligible by blast
  have s: "u \<notin> set (shuffle ss (select_winners cx rs number st))"
    using p e set_select_winners[of cx rs number st] by (auto simp: set_shuffle)
  have "u \<notin> set ws" if "fst (pick cx rs ss raffle_name number now st) = Inr ws" for ws
    using pick_Inr(1)[OF that] s by simp
  then show ?thesis using p e s by blast
qed

theorem blacklisted_never_wins_witness:
  "is_blacklisted 1 (snd ex_state_barred1) \<and> 1 \<in> set (always_pick (fst ex_state_barred1)) \<and>
   fst (pick ex_ctx [0, 0] [] ''SpaceA'' 2 100 ex_state_barred1) = Inr [2, 3] \<and>
   1 \<notin> set (priority_winners ex_ctx ex_state_barred1) \<and>
   1 \<notin> set [2, 3 :: uid]"
proof -
  have h: "is_blacklisted 1 (snd ex_state_barred1)" by code_simp
  have a: "1 \<in> set (always_pick (fst ex_state_barred1))" by code_simp
  have r: "fst (pick ex_ctx [0, 0] [] ''SpaceA'' 2 100 ex_state_barred1) = Inr [2, 3]"
    by code_simp
  show ?thesis
    using blacklisted_never_wins[OF h, of ex_ctx "[]" "[0, 0]" 2 "''SpaceA''" 100] h a r
    by simp
qed

section \<open>A stat increment and the stored link\<close>

text \<open>
  Claim C8 at a concrete input. \<open>db_update_stat\<close> first calls \<open>db_upsert_user\<close> with the
  default link \<open>""\<close>, whose conflict action overwrites \<open>x_link\<close>. So the increment never
  raises a foreign-key error, but it replaces the stored link of a registered user by the
  empty string: after \<open>register\<close> the cache holds the link and the \<open>users\<close> row does not.
\<close>

theorem stat_increment_erases_link:
  "db_upsert_user 1 ex_link empty_store = Inr (empty_store\<lparr>t_users := [(1, ex_link)],
       t_stats := [(1, zero_stat)]\<rparr>) \<and>
   fst (db_update_stat 1 1 0 (empty_store\<lparr>t_users := [(1, ex_link)],
       t_stats := [(1, zero_stat)]\<rparr>)) = None \<and>
   t_users (snd (db_update_stat 1 1 0 (empty_store\<lparr>t_users := [(1, ex_link)],
       t_stats := [(1, zero_stat)]\<rparr>))) = [(1, [])] \<and>
   fst (register ex_user1 (Some ex_link) (empty_cache, empty_store)) = Inr () \<and>
   user_links (fst (snd (register ex_user1 (Some ex_link) (empty_cache, empty_store))))
     = [(1, ex_link)] \<and>
   t_users (snd (snd (register ex_user1 (Some ex_link) (empty_cache, empty_store))))
     = [(1, [])]"
  by code_simp

section \<open>The registrations counter\<close>

text \<open>
  Claim C10 at a concrete input. A user registers, unregisters and registers again.
  \<open>unregister\<close> clears the containers and then deletes from \<open>users\<close> while the user's
  \<open>stats\<close> row still references it, so its transaction is rolled back and the row keeps
  \<open>registrations = 1\<close>; the second \<open>register\<close> passes the test on \<open>user_links\<close> and
  raises the counter of the store to 2, which a restart then loads into the cache.
\<close>

theorem registrations_reach_two:
  "fst (unregister ex_user1 None (run (take 1 ex_reregister) (empty_cache, empty_store)))
     = Inl ForeignKeyViolation \<and>
   stat_registrations 1 (snd (run (take 2 ex_reregister) (empty_cache, empty_store))) = 1 \<and>
   map_of (user_links (fst (run (take 2 ex_reregister) (empty_cache, empty_store)))) 1 = None \<and>
   stat_registrations 1 (snd (run ex_reregister (empty_cache, empty_store))) = 2 \<and>
   map_of (user_stats (fst (run (ex_reregister @ [Restart]) (empty_cache, empty_store)))) 1
     = Some \<lparr>registrations = 2, wins = 0\<rparr>"
  by code_simp

section \<open>Drawing under the name of an archived raffle\<close>

text \<open>
  Claim C4 at a concrete input. A raffle is drawn, exported and archived by the watcher,
  which evicts it from \<open>raffles\<close>. A second draw under the same name puts the name back
  into \<open>raffles\<close> with \<open>setdefault\<close>, while \<open>db_create_raffle\<close> leaves the archived
  row as it is: the cache then holds a raffle that the store has archived.
\<close>

theorem archived_raffle_back_in_cache:
  "map_of (raffles (fst (run (take 3 ex_redraw_archived) ex_state))) ''SpaceA'' = None \<and>
   db_is_archived ''SpaceA'' (snd (run (take 3 ex_redraw_archived) ex_state)) \<and>
   map_of (raffles (fst (run ex_redraw_archived ex_state))) ''SpaceA'' = Some [2] \<and>
   db_is_archived ''SpaceA'' (snd (run ex_redraw_archived ex_state)) \<and>
   db_get_active_raffles (snd (run ex_redraw_archived ex_state)) = []"
  by code_simp

section \<open>A tick of the archive watcher\<close>




section \<open>The role grant\<close>

text \<open>
  Claim C7, as the code has it. Take a draw by an administrator with a non-empty winner
  list \<open>ws\<close> (after the shuffle) and the Winner role available. The loop handles the
  winners in that order, writes all of a winner's state before it awaits the role grant,
  and has no handler around the grant: it reaches the winners up to and including the first
  one whose grant fails. The draw returns \<open>ws\<close> when every grant succeeds and the error
  of the grant otherwise. In both cases nothing is rolled back: the raffle is in the cache
  and in the store; every winner the loop reached is in \<open>already_picked\<close> and in
  \<open>picks_state\<close>, has a winner row under the raffle and one more win per time the loop
  reached it; what \<open>already_picked\<close>, \<open>picks_state\<close> and \<open>raffle_winners\<close> held
  before is still there. When every grant succeeds the loop reaches all of \<open>ws\<close>.
\<close>

theorem draw_commits_up_to_failed_grant:
  assumes "administrator cx" and "role_ready cx"
    and "ws = shuffle ss (select_winners cx rs number (c, d))" and "ws \<noteq> []"
    and "pick cx rs ss raffle_name number now (c, d) = (r, (c', d'))"
  shows "r = (if list_all (add_roles_ok cx) ws then Inr ws else Inl Forbidden) \<and>
         awarded cx ws = take (Suc (length (takeWhile (add_roles_ok cx) ws))) ws \<and>
         (list_all (add_roles_ok cx) ws \<longrightarrow> awarded cx ws = ws) \<and>
         map_of (raffles c') raffle_name \<noteq> None \<and>
         map_of (t_raffles d') raffle_name \<noteq> None \<and>
         (\<forall>u \<in> set (awarded cx ws).
            u \<in> already_picked c' \<and> u \<in> t_picks_state d' \<and>
            map_of (t_raffle_winners d') (raffle_name, u) \<noteq> None) \<and>
         (\<forall>u. stat_wins u d' = stat_wins u d + int (count_list (awarded cx ws) u)) \<and>
         already_picked c \<subseteq> already_picked c' \<and>
         t_picks_state d \<subseteq> t_picks_state d' \<and>
         (\<exists>new. t_raffle_winners d' = t_raffle_winners d @ new)"
proof -
  let ?c1 = "c\<lparr>raffles := map_default raffle_name [] (\<lambda>l. l) (raffles c)\<rparr>"
  let ?d1 = "db_create_raffle raffle_name now d"
  let ?aw = "awarded cx ws"
  have sel: "select_winners cx rs number (c, d) \<noteq> []"
    using assms(3,4) by (auto simp: shuffle_def)
  have r: "r = (if list_all (add_roles_ok cx) ws then Inr ws else Inl Forbidden)"
    and c': "c' = foldl (\<lambda>c w. award_cache raffle_name w c) ?c1 ?aw"
    and d': "d' = foldl (\<lambda>d w. award_store raffle_name now w d) ?d1 ?aw"
    using assms(1,2,5) sel unfolding assms(3) pick_closed by simp_all
  have p4: "map_of (raffles c') raffle_name \<noteq> None"
    by (simp add: c' awards_cache_raffles map_of_map_default split: option.splits)
  have p5: "map_of (t_raffles d') raffle_name \<noteq> None"
    by (auto simp: d' awards_store_frame db_create_raffle_def map_of_map_default
        split: option.splits)
  have p6: "u \<in> already_picked c' \<and> u \<in> t_picks_state d' \<and>
            map_of (t_raffle_winners d') (raffle_name, u) \<noteq> None" if "u \<in> set ?aw" for u
    using that awards_winner_recorded[OF that, of raffle_name now ?d1]
    by (simp add: c' d' awards_already_picked awards_picks_state)
  have p7: "stat_wins u d' = stat_wins u d + int (count_list ?aw u)" for u
    by (simp add: d' awards_wins) (simp add: stat_wins_def db_create_raffle_def)
  have p8: "already_picked c \<subseteq> already_picked c'" by (auto simp: c' awards_already_picked)
  have p9: "t_picks_state d \<subseteq> t_picks_state d'"
    by (auto simp: d' awards_picks_state db_create_raffle_def)
  have p10: "\<exists>new. t_raffle_winners d' = t_raffle_winners d @ new"
    using awards_winner_rows[of raffle_name now ?d1 ?aw]
    by (auto simp: d' db_create_raffle_def)
  show ?thesis using r awarded_take awarded_all p4 p5 p6 p7 p8 p9 p10 by blast
qed

text \<open>
  Two priority winners; the grant to the second one is refused. The draw ends with the
  error and both winners are recorded.
\<close>

theorem draw_commits_up_to_failed_grant_witness:
  "administrator (ex_ctx_deny 2) \<and> role_ready (ex_ctx_deny 2) \<and>
   shuffle [] (select_winners (ex_ctx_deny 2) [] 2 ex_state2) = [1, 2] \<and>
   awarded (ex_ctx_deny 2) [1, 2] = [1, 2] \<and>
   fst (pick (ex_ctx_deny 2) [] [] ''SpaceA'' 2 100 ex_state2) = Inl Forbidden \<and>
   2 \<in> already_picked (fst (snd (pick (ex_ctx_deny 2) [] [] ''SpaceA'' 2 100 ex_state2))) \<and>
   2 \<in> t_picks_state (snd (snd (pick (ex_ctx_deny 2) [] [] ''SpaceA'' 2 100 ex_state2))) \<and>
   map_of (t_raffle_winners (snd (snd (pick (ex_ctx_deny 2) [] [] ''SpaceA'' 2 100 ex_state2))))
     (''SpaceA'', 2) \<noteq> None \<and>
   stat_wins 2 (snd (snd (pick (ex_ctx_deny 2) [] [] ''SpaceA'' 2 100 ex_state2))) =
     stat_wins 2 (snd ex_state2) + int (count_list (awarded (ex_ctx_deny 2) [1, 2]) 2)"
proof -
  let ?cx = "ex_ctx_deny 2"
  let ?R = "pick ?cx [] [] ''SpaceA'' 2 100 ex_state2"
  have a: "administrator ?cx" by code_simp
  have b: "role_ready ?cx" by code_simp
  have w: "[1, 2] = shuffle [] (select_winners ?cx [] 2 (fst ex_state2, snd ex_state2))"
    by code_simp
  have n: "[1, 2 :: uid] \<noteq> []" by simp
  have h: "pick ?cx [] [] ''SpaceA'' 2 100 (fst ex_state2, snd ex_state2) =
             (fst ?R, (fst (snd ?R), snd (snd ?R)))" by simp
  have g: "awarded ?cx [1, 2] = [1, 2]" by code_simp
  have m: "2 \<in> set (awarded ?cx [1, 2])" by code_simp
  have w': "shuffle [] (select_winners ?cx [] 2 ex_state2) = [1, 2]" by code_simp
  have e: "fst ?R = Inl Forbidden" by code_simp
  note t = draw_commits_up_to_failed_grant[OF a b w n h]
  have t6: "2 \<in> already_picked (fst (snd ?R)) \<and> 2 \<in> t_picks_state (snd (snd ?R)) \<and>
            map_of (t_raffle_winners (snd (snd ?R))) (''SpaceA'', 2) \<noteq> None"
    using t m by blast
  have t7: "stat_wins 2 (snd (snd ?R)) =
              stat_wins 2 (snd ex_state2) + int (count_list (awarded ?cx [1, 2]) 2)"
    using t by blast
  show ?thesis using a b w' g e t6 t7 by blast
qed

text \<open>
  Claim C7 as stated fails: whether a computed winner is persisted depends on the grants
  before it. With the winner list \<open>[1, 2]\<close>, a refused grant to winner 1 ends the draw
  before winner 2 is handled, so winner 2 has no picked-state entry, no winner row and no
  win, while the same draw with every grant succeeding records winner 2.
\<close>

theorem failed_grant_drops_later_winners:
  "shuffle [] (select_winners (ex_ctx_deny 1) [] 2 ex_state2) = [1, 2] \<and>
   fst (pick (ex_ctx_deny 1) [] [] ''SpaceA'' 2 100 ex_state2) = Inl Forbidden \<and>
   2 \<notin> already_picked (fst (snd (pick (ex_ctx_deny 1) [] [] ''SpaceA'' 2 100 ex_state2))) \<and>
   2 \<notin> t_picks_state (snd (snd (pick (ex_ctx_deny 1) [] [] ''SpaceA'' 2 100 ex_state2))) \<and>
   map_of (t_raffle_winners (snd (snd (pick (ex_ctx_deny 1) [] [] ''SpaceA'' 2 100 ex_state2))))
     (''SpaceA'', 2) = None \<and>
   stat_wins 2 (snd (snd (pick (ex_ctx_deny 1) [] [] ''SpaceA'' 2 100 ex_state2))) = 0 \<and>
   fst (pick ex_ctx [] [] ''SpaceA'' 2 100 ex_state2) = Inr [1, 2] \<and>
   map_of (t_raffle_winners (snd (snd (pick ex_ctx [] [] ''SpaceA'' 2 100 ex_state2))))
     (''SpaceA'', 2) = Some 100 \<and>
   stat_wins 2 (snd (snd (pick ex_ctx [] [] ''SpaceA'' 2 100 ex_state2))) = 1"
  by code_simp

section \<open>The wins counter and the winner rows\<close>

text \<open>
  Claim C3, as the code has it. A draw adds one to the wins counter of every winner the
  loop reaches, but \<open>db_add_winner\<close> adds a winner row only when the pair of raffle and
  user has none. So after any run of commands, draws and resets of the picks among them,
  every user's wins counter is at least the number of the user's winner rows; and the two
  are equal after a run in which no draw selects a user who already has a winner row under
  the raffle name of that draw.
\<close>

theorem wins_bound_winner_rows:
  "(wins_cover_rows (snd st) \<longrightarrow> wins_cover_rows (snd (run cmds st))) \<and>
   (wins_match_rows (snd st) \<and> cache_keys_distinct (fst st) \<and> fresh_wins cmds st \<longrightarrow>
      wins_match_rows (snd (run cmds st)))"
  using run_wins_cover run_wins_match by blast

text \<open>
  From \<open>ex_state\<close>, where nobody has won: drawing one raffle twice keeps the bound, and
  drawing two raffles keeps the equality (user 1 then has two wins and two rows).
\<close>

theorem wins_bound_winner_rows_witness:
  "wins_cover_rows (snd ex_state) \<and> wins_cover_rows (snd (run ex_rewin ex_state)) \<and>
   wins_match_rows (snd ex_state) \<and> cache_keys_distinct (fst ex_state) \<and>
   fresh_wins ex_two_draws ex_state \<and> wins_match_rows (snd (run ex_two_draws ex_state)) \<and>
   stat_wins 1 (snd (run ex_two_draws ex_state)) = 2 \<and>
   length (winner_rows 1 (snd (run ex_two_draws ex_state))) = 2"
proof -
  have m: "wins_match_rows (snd ex_state)"
    by (auto simp: ex_state_def load_store wins_match_rows_def ex_store_def winner_rows_def
        stat_wins_def)
  then have c: "wins_cover_rows (snd ex_state)"
    by (simp add: wins_match_rows_def wins_cover_rows_def)
  have k: "cache_keys_distinct (fst ex_state)" by code_simp
  have f: "fresh_wins ex_two_draws ex_state" by code_simp
  have w: "stat_wins 1 (snd (run ex_two_draws ex_state)) = 2" by code_simp
  have r: "length (winner_rows 1 (snd (run ex_two_draws ex_state))) = 2" by code_simp
  show ?thesis
    using wins_bound_winner_rows[of ex_state ex_rewin]
      wins_bound_winner_rows[of ex_state ex_two_draws] m c k f w r
    by blast
qed

text \<open>
  Claim C3 as stated fails: user 1 wins the raffle \<open>SpaceA\<close>, the picks are reset, and
  user 1 wins \<open>SpaceA\<close> again. The wins counter is 2 and the user has one winner row.
\<close>

theorem rewin_counts_twice_records_once:
  "stat_wins 1 (snd ex_state) = 0 \<and> winner_rows 1 (snd ex_state) = [] \<and>
   ex_rewin = [Pick ex_ctx [] [] ''SpaceA'' 1 100, ResetPicks ex_ctx,
               Pick ex_ctx [] [] ''SpaceA'' 1 200] \<and>
   stat_wins 1 (snd (run ex_rewin ex_state)) = 2 \<and>
   winner_rows 1 (snd (run ex_rewin ex_state)) = [((''SpaceA'', 1), 100)] \<and>
   stat_wins 1 (snd (run ex_rewin ex_state)) \<noteq>
     int (length (winner_rows 1 (snd (run ex_rewin ex_state))))"
proof -
  have a: "stat_wins 1 (snd ex_state) = 0" by code_simp
  have b: "winner_rows 1 (snd ex_state) = []" by code_simp
  have c: "stat_wins 1 (snd (run ex_rewin ex_state)) = 2" by code_simp
  have d: "winner_rows 1 (snd (run ex_rewin ex_state)) = [((''SpaceA'', 1), 100)]" by code_simp
  show ?thesis using a b c d by (simp add: ex_rewin_def)
qed

section \<open>Winner rows are kept\<close>

text \<open>
  Claim C5. Start from a store in which every winner row has its raffle row and the
  \<open>users\<close> and \<open>stats\<close> rows of its user, and the pairs of raffle and user are distinct
  (the empty store is one, and every command keeps the store so). Then after any run of
  commands the table \<open>raffle_winners\<close> is the table before with rows appended: every row
  is still there with the same \<open>picked_at\<close>, and the pairs are still distinct. The three
  commands that hold a DELETE on \<open>raffle_winners\<close> run it in a transaction whose first
  statement deletes from \<open>users\<close> or from \<open>raffles\<close>; while a winner row exists that
  statement violates a foreign key, so the transaction is rolled back.
\<close>

theorem winner_rows_are_kept:
  assumes "winners_backed (snd st)"
  shows "winners_backed (snd (run cmds st)) \<and>
         (\<exists>new. t_raffle_winners (snd (run cmds st)) = t_raffle_winners (snd st) @ new) \<and>
         (\<forall>k t. map_of (t_raffle_winners (snd st)) k = Some t \<longrightarrow>
                map_of (t_raffle_winners (snd (run cmds st))) k = Some t) \<and>
         distinct (map fst (t_raffle_winners (snd (run cmds st))))"
proof -
  from run_winner_rows[OF assms, of cmds] obtain new where
    b: "winners_backed (snd (run cmds st))"
    and n: "t_raffle_winners (snd (run cmds st)) = t_raffle_winners (snd st) @ new" by blast
  have k: "map_of (t_raffle_winners (snd (run cmds st))) k = Some t"
    if "map_of (t_raffle_winners (snd st)) k = Some t" for k t
    using that by (simp add: n map_of_append map_add_def)
  show ?thesis using b n k winners_backedD(1)[OF b] by blast
qed

text \<open>
  User 1 has won \<open>SpaceA\<close>; then the winner unregisters, an administrator unregisters
  the winner and resets the raffles and the database. Each of these ends with a
  foreign-key error, and the winner row is still the only row of the table.
\<close>

theorem winner_rows_are_kept_witness:
  "winners_backed empty_store \<and> winners_backed (snd ex_won) \<and>
   t_raffle_winners (snd ex_won) = [((''SpaceA'', 1), 100)] \<and>
   fst (unregister ex_user1 None ex_won) = Inl ForeignKeyViolation \<and>
   fst (reset_raffles ex_ctx ex_won) = Inl ForeignKeyViolation \<and>
   fst (reset_db ex_ctx ex_won) = Inl ForeignKeyViolation \<and>
   winners_backed (snd (run ex_purge ex_won)) \<and>
   map_of (t_raffle_winners (snd (run ex_purge ex_won))) (''SpaceA'', 1) = Some 100 \<and>
   distinct (map fst (t_raffle_winners (snd (run ex_purge ex_won))))"
proof -
  have e: "winners_backed empty_store" by code_simp
  have h: "winners_backed (snd ex_won)" by code_simp
  have r: "t_raffle_winners (snd ex_won) = [((''SpaceA'', 1), 100)]" by code_simp
  have u: "fst (unregister ex_user1 None ex_won) = Inl ForeignKeyViolation" by code_simp
  have v: "fst (reset_raffles ex_ctx ex_won) = Inl ForeignKeyViolation" by code_simp
  have w: "fst (reset_db ex_ctx ex_won) = Inl ForeignKeyViolation" by code_simp
  have m: "map_of (t_raffle_winners (snd ex_won)) (''SpaceA'', 1) = Some 100"
    by (simp add: r)
  show ?thesis using winner_rows_are_kept[OF h, of ex_purge] e h r u v w m by blast
qed

end
